theory Spec2Isabelle
  imports Main
begin

section \<open>Host values, errors and capabilities\<close>

text \<open>
  The development embeds \<^verbatim>\<open>cutting_room/record-tuple/record.js\<close>: the constructor
  \<^verbatim>\<open>Record\<close>, its normalisation of a source object and the creation of a fresh record.
  The modules it imports (\<^verbatim>\<open>./interngraph\<close>, \<^verbatim>\<open>./utils\<close>) and \<^verbatim>\<open>./tuple.js\<close> are
  not part of the sources; what is needed of them is modelled from the specification and
  marked so.

  A composite is referred to by its identity, a number that is never reused. Records
  and tuples live in two stores, so a record and a tuple are never the same object.
\<close>

type_synonym addr = nat

datatype jsval =
    JUndefined
  | JNull
  | JBool bool
  | JNum int
  | JStr string
  | JSymbol nat
  | JFunction nat
  | JObject nat
  | JRecord addr
  | JTuple addr

datatype location = Field string | Position nat

datatype feature = WeakReference | Freezing | IdentityComparison

datatype error =
    Error string
  | TypeError
  | CapabilityMissing feature
  | InvalidEntry "location option" jsval

text \<open>
  The host: the three primitives the capability guard asks for, and the host's
  conversion to a string of the values whose conversion is not fixed by the language or
  by \<^verbatim>\<open>record.js\<close> (numbers, functions, foreign objects, tuples); \<open>None\<close> stands
  for a conversion that throws.
\<close>

record host =
  weakReference :: bool
  freezing :: bool
  identityComparison :: bool
  toStringOf :: "jsval \<Rightarrow> string option"

text \<open>
  The argument of \<^verbatim>\<open>Record\<close> as \<^verbatim>\<open>createRecordFromObject\<close> sees it: either
  \<^verbatim>\<open>isObject\<close> rejects it, or it is an object and \<^verbatim>\<open>Object.entries\<close> enumerates its
  own enumerable string-keyed properties, in the host's enumeration order. The keys of
  an object are distinct. \<^verbatim>\<open>isObject\<close> is a helper of \<^verbatim>\<open>./utils\<close>, which is not in the
  sources: the argument carries its answer.
\<close>

datatype argument = NotAnObject | AnObject "(string \<times> jsval) list"

fun isObject :: "argument \<Rightarrow> bool" where
  "isObject NotAnObject = False"
| "isObject (AnObject es) = True"

fun Object_entries :: "argument \<Rightarrow> (string \<times> jsval) list" where
  "Object_entries NotAnObject = []"
| "Object_entries (AnObject es) = es"

fun wellFormed :: "argument \<Rightarrow> bool" where
  "wellFormed NotAnObject = True"
| "wellFormed (AnObject es) = distinct (map fst es)"

section \<open>Composites and the interning graph\<close>

text \<open>A composite (section 3 of the spec): its entries in order, keyed by strings in a
  record and by indices in a tuple, whether it is frozen, and whether it carries the
  tag of its kind.\<close>

record 'k composite =
  props :: "('k \<times> jsval) list"
  isFrozen :: bool
  isMarked :: bool

text \<open>Modelled from the spec: an \<open>InternNode\<close> (section 3), with its weakly held
  terminal and its children by edge; an edge is a pair of a key and a value, and two
  values are the same edge when they are equal, composites by identity.\<close>

datatype 'k node =
  Node (terminal: "addr option") (children: "(('k \<times> jsval) \<times> 'k node) list")

text \<open>The state of the program: the root of each kind's graph, the live composites of
  each kind by identity, and the next identity. \<open>init\<close> is the state when the module
  has been loaded (\<^verbatim>\<open>const RECORD_GRAPH = new InternGraph(...)\<close>).\<close>

record state =
  RECORD_GRAPH :: "string node"
  TUPLE_GRAPH :: "nat node"
  records :: "addr \<rightharpoonup> string composite"
  tuples :: "addr \<rightharpoonup> nat composite"
  fresh :: addr

definition init :: state where
  "init = \<lparr>RECORD_GRAPH = Node None [], TUPLE_GRAPH = Node None [],
           records = Map.empty, tuples = Map.empty, fresh = 0\<rparr>"

text \<open>Assignment to a key of an association list: in place when the key is there, at
  the end otherwise (the order in which a host object enumerates its string keys; that
  a host enumerates integer-like keys first is not modelled).\<close>

fun assign :: "'a \<Rightarrow> 'b \<Rightarrow> ('a \<times> 'b) list \<Rightarrow> ('a \<times> 'b) list" where
  "assign k v [] = [(k, v)]"
| "assign k v ((k', v') # kvs) =
     (if k' = k then (k, v) # kvs else (k', v') # assign k v kvs)"

text \<open>Modelled from the spec: the interning graph of \<^verbatim>\<open>./interngraph\<close> (section 4.3),
  a trie whose edges are labelled by \<open>(key, value)\<close> pairs and whose nodes hold a weak
  terminal. \<open>terminalAt\<close> reads the terminal slot at the end of a path.\<close>

fun terminalAt :: "'k node \<Rightarrow> ('k \<times> jsval) list \<Rightarrow> addr option" where
  "terminalAt n [] = terminal n"
| "terminalAt n (e # es) =
     (case map_of (children n) e of None \<Rightarrow> None | Some c \<Rightarrow> terminalAt c es)"

text \<open>Modelled from the spec: the descent of section 4.3, "look up the child keyed by
  \<open>(k, v)\<close>; if no child exists, create one; descend".\<close>

fun descend :: "'k node \<Rightarrow> ('k \<times> jsval) list \<Rightarrow> 'k node" where
  "descend n [] = n"
| "descend n (e # es) =
     Node (terminal n)
       (assign e
          (descend (case map_of (children n) e of None \<Rightarrow> Node None [] | Some c \<Rightarrow> c) es)
          (children n))"

text \<open>Modelled from the spec: storing the fresh composite in the terminal slot of the
  final node.\<close>

fun setTerminal :: "'k node \<Rightarrow> ('k \<times> jsval) list \<Rightarrow> addr \<Rightarrow> 'k node" where
  "setTerminal n [] a = Node (Some a) (children n)"
| "setTerminal n (e # es) a =
     (case map_of (children n) e of
        None \<Rightarrow> n
      | Some c \<Rightarrow> Node (terminal n) (assign e (setTerminal c es a) (children n)))"

text \<open>Modelled from the spec: a weak reference is live while its target is in the
  store; a collected target leaves the slot expired.\<close>

fun deref :: "(addr \<rightharpoonup> 'c) \<Rightarrow> addr option \<Rightarrow> addr option" where
  "deref hp None = None"
| "deref hp (Some a) = (if hp a = None then None else Some a)"

text \<open>Modelled from the spec: pruning (sections 3 and 4.3). A node is detached from
  its parent once its subtree holds no live terminal and no child; an expired terminal is
  cleared. The spec leaves open whether this happens during a traversal or at a sweep of
  its own, as long as no lookup changes; here it is a step that may come between any two
  calls.\<close>

fun isEmptyNode :: "'k node \<Rightarrow> bool" where
  "isEmptyNode (Node t cs) = (t = None \<and> cs = [])"

primrec prune :: "(addr \<rightharpoonup> 'c) \<Rightarrow> 'k node \<Rightarrow> 'k node" where
  "prune hp (Node t cs) =
     Node (deref hp t)
       (filter (\<lambda>ec. \<not> isEmptyNode (snd ec)) (map (map_prod id (prune hp)) cs))"

text \<open>Modelled from the spec: \<^verbatim>\<open>InternGraph.get\<close> (section 4.3, \<open>get_or_create\<close>), on
  the graph's root, the store of its composites and the next identity. The nodes
  created by the descent stay when the creator fails.\<close>

definition InternGraph_get ::
  "(('k \<times> jsval) list \<Rightarrow> error + 'k composite) \<Rightarrow> ('k \<times> jsval) list \<Rightarrow>
   'k node \<times> (addr \<rightharpoonup> 'k composite) \<times> addr \<Rightarrow>
   (error + addr) \<times> ('k node \<times> (addr \<rightharpoonup> 'k composite) \<times> addr)" where
  "InternGraph_get creator entries st =
     (case st of (g, hp, n) \<Rightarrow>
        (let g1 = descend g entries in
         case deref hp (terminalAt g1 entries) of
           Some a \<Rightarrow> (Inr a, (g1, hp, n))
         | None \<Rightarrow>
             (case creator entries of
                Inl e \<Rightarrow> (Inl e, (g1, hp, n))
              | Inr obj \<Rightarrow> (Inr n, (setTerminal g1 entries n, hp(n \<mapsto> obj), Suc n)))))"

section \<open>The helpers of \<^verbatim>\<open>./utils\<close> and \<^verbatim>\<open>./interngraph\<close>\<close>

datatype classification = Primitive | Composite | Invalid

text \<open>Modelled from the spec: the value classifier (section 4.1). Strings, numbers,
  booleans, null and the absent marker are primitive; records and tuples are composite;
  anything else is invalid.\<close>

fun classify :: "jsval \<Rightarrow> classification" where
  "classify JUndefined = Primitive"
| "classify JNull = Primitive"
| "classify (JBool b) = Primitive"
| "classify (JNum n) = Primitive"
| "classify (JStr s) = Primitive"
| "classify (JRecord a) = Composite"
| "classify (JTuple a) = Composite"
| "classify (JSymbol n) = Invalid"
| "classify (JFunction n) = Invalid"
| "classify (JObject n) = Invalid"

text \<open>Modelled from the spec: \<^verbatim>\<open>validateProperty\<close> of \<^verbatim>\<open>./utils\<close>. Both call sites in
  \<^verbatim>\<open>record.js\<close> pass it the value alone and use what it returns; an invalid value
  fails with \<open>InvalidEntry\<close>, which can carry the value and no location.\<close>

definition validateProperty :: "jsval \<Rightarrow> error + jsval" where
  "validateProperty v =
     (if classify v = Invalid then Inl (InvalidEntry None v) else Inr v)"

text \<open>Modelled from the spec: \<^verbatim>\<open>assertFeatures\<close> of \<^verbatim>\<open>./interngraph\<close>, the capability
  guard (section 4.5).\<close>

definition assertFeatures :: "host \<Rightarrow> error + unit" where
  "assertFeatures h =
     (if \<not> weakReference h then Inl (CapabilityMissing WeakReference)
      else if \<not> freezing h then Inl (CapabilityMissing Freezing)
      else if \<not> identityComparison h then Inl (CapabilityMissing IdentityComparison)
      else Inr ())"

text \<open>Modelled from the spec: \<^verbatim>\<open>objectFromEntries\<close> of \<^verbatim>\<open>./utils\<close>, the object that
  holds the fields of a key/value sequence; a later pair with the key of an earlier
  one replaces its value.\<close>

definition objectFromEntries :: "(string \<times> jsval) list \<Rightarrow> argument" where
  "objectFromEntries pairs = AnObject (foldl (\<lambda>obj (k, v). assign k v obj) [] pairs)"

section \<open>\<^verbatim>\<open>record.js\<close>\<close>

text \<open>\<^verbatim>\<open>record[name] = value\<close> on the object under construction and
  \<^verbatim>\<open>Object.freeze\<close>, as the host does them: an assignment to a frozen object changes
  nothing.\<close>

definition setProperty :: "'k \<Rightarrow> jsval \<Rightarrow> 'k composite \<Rightarrow> 'k composite" where
  "setProperty name v obj =
     (if isFrozen obj then obj else obj\<lparr>props := assign name v (props obj)\<rparr>)"

definition Object_freeze :: "'k composite \<Rightarrow> 'k composite" where
  "Object_freeze obj = obj\<lparr>isFrozen := True\<rparr>"

text \<open>Modelled from the spec: \<^verbatim>\<open>markRecord\<close> of \<^verbatim>\<open>./utils\<close>, which gives the
  composite the provenance tag of section 4.1.\<close>

definition markRecord :: "'k composite \<Rightarrow> 'k composite" where
  "markRecord obj = obj\<lparr>isMarked := True\<rparr>"

fun assignProperties ::
  "(string \<times> jsval) list \<Rightarrow> string composite \<Rightarrow> error + string composite" where
  "assignProperties [] record = Inr record"
| "assignProperties ((name, value) # rest) record =
     (case validateProperty value of
        Inl e \<Rightarrow> Inl e
      | Inr v \<Rightarrow> assignProperties rest (setProperty name v record))"

definition createFreshRecordFromProperties ::
  "(string \<times> jsval) list \<Rightarrow> error + string composite" where
  "createFreshRecordFromProperties properties =
     (case assignProperties properties \<lparr>props = [], isFrozen = False, isMarked = False\<rparr> of
        Inl e \<Rightarrow> Inl e
      | Inr record \<Rightarrow> Inr (markRecord (Object_freeze record)))"

text \<open>\<^verbatim>\<open>RECORD_GRAPH.get(properties)\<close>, with
  \<^verbatim>\<open>RECORD_GRAPH = new InternGraph(createFreshRecordFromProperties)\<close>.\<close>

definition RECORD_GRAPH_get :: "(string \<times> jsval) list \<Rightarrow> state \<Rightarrow> (error + addr) \<times> state" where
  "RECORD_GRAPH_get properties s =
     (case InternGraph_get createFreshRecordFromProperties properties
             (RECORD_GRAPH s, records s, fresh s) of
        (r, (g, hp, n)) \<Rightarrow> (r, s\<lparr>RECORD_GRAPH := g, records := hp, fresh := n\<rparr>))"

text \<open>
  The comparator of the sort is applied to two entries \<^verbatim>\<open>[name, value]\<close>, and \<^verbatim>\<open><\<close> on
  two arrays compares their conversions to strings: the name, a comma and the value's
  string (empty for null and the absent marker). Strings compare by code unit.
\<close>

fun elementToString :: "host \<Rightarrow> jsval \<Rightarrow> string option" where
  "elementToString h JUndefined = Some []"
| "elementToString h JNull = Some []"
| "elementToString h (JBool b) = Some (if b then ''true'' else ''false'')"
| "elementToString h (JStr s) = Some s"
| "elementToString h (JSymbol n) = None"
| "elementToString h (JRecord a) = Some ''[record Record]''"
| "elementToString h (JNum n) = toStringOf h (JNum n)"
| "elementToString h (JFunction n) = toStringOf h (JFunction n)"
| "elementToString h (JObject n) = toStringOf h (JObject n)"
| "elementToString h (JTuple a) = toStringOf h (JTuple a)"

definition entryToString :: "host \<Rightarrow> string \<times> jsval \<Rightarrow> string option" where
  "entryToString h e =
     (case elementToString h (snd e) of
        None \<Rightarrow> None
      | Some s \<Rightarrow> Some (fst e @ '','' @ s))"

fun stringLess :: "string \<Rightarrow> string \<Rightarrow> bool" where
  "stringLess [] [] = False"
| "stringLess [] (y # ys) = True"
| "stringLess (x # xs) [] = False"
| "stringLess (x # xs) (y # ys) =
     (if x = y then stringLess xs ys else (of_char x :: nat) < of_char y)"

definition compareEntries :: "host \<Rightarrow> string \<times> jsval \<Rightarrow> string \<times> jsval \<Rightarrow> error + int" where
  "compareEntries h a b =
     (case entryToString h a of
        None \<Rightarrow> Inl TypeError
      | Some x \<Rightarrow>
          (case entryToString h b of
             None \<Rightarrow> Inl TypeError
           | Some y \<Rightarrow>
               Inr (if stringLess x y then - 1 else if stringLess y x then 1 else 0)))"

text \<open>\<^verbatim>\<open>Array.prototype.sort\<close> with a comparator: a stable sort, which stops when the
  comparator throws.\<close>

fun insertSorted :: "('a \<Rightarrow> 'a \<Rightarrow> error + int) \<Rightarrow> 'a \<Rightarrow> 'a list \<Rightarrow> error + 'a list" where
  "insertSorted cmp x [] = Inr [x]"
| "insertSorted cmp x (y # ys) =
     (case cmp x y of
        Inl e \<Rightarrow> Inl e
      | Inr c \<Rightarrow>
          if c \<le> 0 then Inr (x # y # ys)
          else (case insertSorted cmp x ys of Inl e \<Rightarrow> Inl e | Inr zs \<Rightarrow> Inr (y # zs)))"

fun Array_sort :: "('a \<Rightarrow> 'a \<Rightarrow> error + int) \<Rightarrow> 'a list \<Rightarrow> error + 'a list" where
  "Array_sort cmp [] = Inr []"
| "Array_sort cmp (x # xs) =
     (case Array_sort cmp xs of Inl e \<Rightarrow> Inl e | Inr ys \<Rightarrow> insertSorted cmp x ys)"

text \<open>\<^verbatim>\<open>.map(([name, value]) => [name, validateProperty(value)])\<close>\<close>

fun validateAll :: "(string \<times> jsval) list \<Rightarrow> error + (string \<times> jsval) list" where
  "validateAll [] = Inr []"
| "validateAll ((name, value) # rest) =
     (case validateProperty value of
        Inl e \<Rightarrow> Inl e
      | Inr v \<Rightarrow> (case validateAll rest of Inl e \<Rightarrow> Inl e | Inr ps \<Rightarrow> Inr ((name, v) # ps)))"

definition createRecordFromObject :: "host \<Rightarrow> argument \<Rightarrow> state \<Rightarrow> (error + addr) \<times> state" where
  "createRecordFromObject h value s =
     (case assertFeatures h of
        Inl e \<Rightarrow> (Inl e, s)
      | Inr u \<Rightarrow>
          if \<not> isObject value then (Inl (Error ''invalid value, expected object argument''), s)
          else
            (case Array_sort (compareEntries h) (Object_entries value) of
               Inl e \<Rightarrow> (Inl e, s)
             | Inr ordered \<Rightarrow>
                 (case validateAll ordered of
                    Inl e \<Rightarrow> (Inl e, s)
                  | Inr properties \<Rightarrow> RECORD_GRAPH_get properties s)))"

definition Record :: "host \<Rightarrow> argument \<Rightarrow> state \<Rightarrow> (error + addr) \<times> state" where
  "Record h value s = createRecordFromObject h value s"

definition Record_fromEntries ::
  "host \<Rightarrow> (string \<times> jsval) list \<Rightarrow> state \<Rightarrow> (error + addr) \<times> state" where
  "Record_fromEntries h iterator s = createRecordFromObject h (objectFromEntries iterator) s"

section \<open>Tuples\<close>

text \<open>Modelled from the spec: the positional path of the entry normaliser (section 4.2):
  the elements as they come, each keyed by its zero-based index; an invalid element
  fails with \<open>InvalidEntry\<close> and its index.\<close>

fun normalizeTuple :: "nat \<Rightarrow> jsval list \<Rightarrow> error + (nat \<times> jsval) list" where
  "normalizeTuple i [] = Inr []"
| "normalizeTuple i (v # vs) =
     (if classify v = Invalid then Inl (InvalidEntry (Some (Position i)) v)
      else (case normalizeTuple (Suc i) vs of
              Inl e \<Rightarrow> Inl e
            | Inr es \<Rightarrow> Inr ((i, v) # es)))"

text \<open>Modelled from the spec: the creator of the tuple graph; the fresh composite is
  built from the entries, frozen and tagged (section 4.4).\<close>

definition createFreshTuple :: "(nat \<times> jsval) list \<Rightarrow> error + nat composite" where
  "createFreshTuple entries =
     Inr (markRecord (Object_freeze \<lparr>props = entries, isFrozen = False, isMarked = False\<rparr>))"

definition TUPLE_GRAPH_get :: "(nat \<times> jsval) list \<Rightarrow> state \<Rightarrow> (error + addr) \<times> state" where
  "TUPLE_GRAPH_get entries s =
     (case InternGraph_get createFreshTuple entries (TUPLE_GRAPH s, tuples s, fresh s) of
        (r, (g, hp, n)) \<Rightarrow> (r, s\<lparr>TUPLE_GRAPH := g, tuples := hp, fresh := n\<rparr>))"

text \<open>Modelled from the spec: \<^verbatim>\<open>Tuple\<close> of \<^verbatim>\<open>./tuple.js\<close>, "the same path with
  positional normalization" (section 4.4): the normaliser, then the graph. The spec
  has the capability check made once, when the module is loaded (sections 4.5 and 7),
  so the call does not test the host \<open>h\<close> it runs on.\<close>

definition Tuple :: "host \<Rightarrow> jsval list \<Rightarrow> state \<Rightarrow> (error + addr) \<times> state" where
  "Tuple h vs s =
     (case normalizeTuple 0 vs of
        Inl e \<Rightarrow> (Inl e, s)
      | Inr entries \<Rightarrow> TUPLE_GRAPH_get entries s)"

section \<open>The environment: mutation attempts and collection\<close>

text \<open>
  What a holder of a composite can try on it, and what the host does: on a frozen
  object an assignment or a deletion changes nothing; in strict code an assignment
  throws, and so does the deletion of a property the object has (the deletion of a
  property it does not have succeeds, with nothing to do).
  The collector may drop any composite; its weak terminal is expired from then on.
  The graphs may be swept of their dead nodes at any time.
\<close>

datatype 'k mutation = Store 'k jsval | Remove 'k

definition deleteProperty :: "'k \<Rightarrow> 'k composite \<Rightarrow> 'k composite" where
  "deleteProperty name obj =
     (if isFrozen obj then obj else obj\<lparr>props := filter (\<lambda>e. fst e \<noteq> name) (props obj)\<rparr>)"

fun attempt :: "bool \<Rightarrow> 'k mutation \<Rightarrow> 'k composite \<Rightarrow> error + 'k composite" where
  "attempt strict (Store name v) obj =
     (if isFrozen obj \<and> strict then Inl TypeError else Inr (setProperty name v obj))"
| "attempt strict (Remove name) obj =
     (if isFrozen obj \<and> strict \<and> name \<in> fst ` set (props obj) then Inl TypeError
      else Inr (deleteProperty name obj))"

definition mutateRecord ::
  "bool \<Rightarrow> addr \<Rightarrow> string mutation \<Rightarrow> state \<Rightarrow> (error + unit) \<times> state" where
  "mutateRecord strict a m s =
     (case records s a of
        None \<Rightarrow> (Inr (), s)
      | Some obj \<Rightarrow>
          (case attempt strict m obj of
             Inl e \<Rightarrow> (Inl e, s)
           | Inr obj' \<Rightarrow> (Inr (), s\<lparr>records := (records s)(a \<mapsto> obj')\<rparr>)))"

definition mutateTuple ::
  "bool \<Rightarrow> addr \<Rightarrow> nat mutation \<Rightarrow> state \<Rightarrow> (error + unit) \<times> state" where
  "mutateTuple strict a m s =
     (case tuples s a of
        None \<Rightarrow> (Inr (), s)
      | Some obj \<Rightarrow>
          (case attempt strict m obj of
             Inl e \<Rightarrow> (Inl e, s)
           | Inr obj' \<Rightarrow> (Inr (), s\<lparr>tuples := (tuples s)(a \<mapsto> obj')\<rparr>)))"

definition collectRecord :: "addr \<Rightarrow> state \<Rightarrow> state" where
  "collectRecord a s = s\<lparr>records := (records s)(a := None)\<rparr>"

definition collectTuple :: "addr \<Rightarrow> state \<Rightarrow> state" where
  "collectTuple a s = s\<lparr>tuples := (tuples s)(a := None)\<rparr>"

definition sweep :: "state \<Rightarrow> state" where
  "sweep s = s\<lparr>RECORD_GRAPH := prune (records s) (RECORD_GRAPH s),
               TUPLE_GRAPH := prune (tuples s) (TUPLE_GRAPH s)\<rparr>"

datatype action =
    Call_Record host argument
  | Call_fromEntries host "(string \<times> jsval) list"
  | Call_Tuple host "jsval list"
  | Mutate_Record bool addr "string mutation"
  | Mutate_Tuple bool addr "nat mutation"
  | Collect_Record addr
  | Collect_Tuple addr
  | Sweep

fun perform :: "action \<Rightarrow> state \<Rightarrow> state" where
  "perform (Call_Record h value) s = snd (Record h value s)"
| "perform (Call_fromEntries h pairs) s = snd (Record_fromEntries h pairs s)"
| "perform (Call_Tuple h vs) s = snd (Tuple h vs s)"
| "perform (Mutate_Record strict a m) s = snd (mutateRecord strict a m s)"
| "perform (Mutate_Tuple strict a m) s = snd (mutateTuple strict a m s)"
| "perform (Collect_Record a) s = collectRecord a s"
| "perform (Collect_Tuple a) s = collectTuple a s"
| "perform Sweep s = sweep s"

fun admissible :: "action \<Rightarrow> bool" where
  "admissible (Call_Record h value) = wellFormed value"
| "admissible act = True"

text \<open>\<open>evolves s s'\<close>: the program gets from \<open>s\<close> to \<open>s'\<close> by constructor calls,
  mutation attempts, collections and sweeps; \<open>reachable s\<close>: from the state at load.\<close>

inductive evolves :: "state \<Rightarrow> state \<Rightarrow> bool" where
  evolves_refl: "evolves s s"
| evolves_step: "evolves s s' \<Longrightarrow> admissible act \<Longrightarrow> evolves s (perform act s')"

definition reachable :: "state \<Rightarrow> bool" where
  "reachable s = evolves init s"

section \<open>Invariants\<close>

text \<open>The invariant of the data model: two live composites of one kind have equal
  entry sequences exactly when they are the same object.\<close>

definition canonical :: "(addr \<rightharpoonup> 'k composite) \<Rightarrow> bool" where
  "canonical hp =
     (\<forall>a b oa ob. hp a = Some oa \<longrightarrow> hp b = Some ob \<longrightarrow> (props oa = props ob \<longleftrightarrow> a = b))"

text \<open>What the graph and its store keep between calls: every live composite is frozen,
  tagged and the terminal of the path of its entries, and every terminal is an identity
  already given out that, while live, has the entries of its path.\<close>

definition interned :: "'k node \<Rightarrow> (addr \<rightharpoonup> 'k composite) \<Rightarrow> addr \<Rightarrow> bool" where
  "interned g hp n =
     ((\<forall>a obj. hp a = Some obj \<longrightarrow>
          a < n \<and> isFrozen obj \<and> isMarked obj \<and> terminalAt g (props obj) = Some a) \<and>
      (\<forall>p a. terminalAt g p = Some a \<longrightarrow>
          a < n \<and> (\<forall>obj. hp a = Some obj \<longrightarrow> props obj = p)))"

text \<open>The node at the end of a path, and the graphs in which every node that a path
  reaches has one child for each edge.\<close>

fun nodeAt :: "'k node \<Rightarrow> ('k \<times> jsval) list \<Rightarrow> 'k node option" where
  "nodeAt n [] = Some n"
| "nodeAt n (e # es) =
     (case map_of (children n) e of None \<Rightarrow> None | Some c \<Rightarrow> nodeAt c es)"

definition wellKeyed :: "'k node \<Rightarrow> bool" where
  "wellKeyed g = (\<forall>p n. nodeAt g p = Some n \<longrightarrow> distinct (map fst (children n)))"

definition invariant :: "state \<Rightarrow> bool" where
  "invariant s =
     (interned (RECORD_GRAPH s) (records s) (fresh s) \<and>
      interned (TUPLE_GRAPH s) (tuples s) (fresh s) \<and>
      wellKeyed (RECORD_GRAPH s) \<and> wellKeyed (TUPLE_GRAPH s))"

text \<open>What one step of the program keeps of a state: identities are only added, a
  composite below the old bound is one that was there, unchanged, and the terminal of
  a path stays as long as its composite is live.\<close>

definition keeps :: "state \<Rightarrow> state \<Rightarrow> bool" where
  "keeps s s' =
     (fresh s \<le> fresh s' \<and>
      (\<forall>a obj. records s' a = Some obj \<longrightarrow> a < fresh s \<longrightarrow> records s a = Some obj) \<and>
      (\<forall>a obj. tuples s' a = Some obj \<longrightarrow> a < fresh s \<longrightarrow> tuples s a = Some obj) \<and>
      (\<forall>q a. terminalAt (RECORD_GRAPH s) q = Some a \<longrightarrow> records s' a \<noteq> None \<longrightarrow>
             terminalAt (RECORD_GRAPH s') q = Some a) \<and>
      (\<forall>q a. terminalAt (TUPLE_GRAPH s) q = Some a \<longrightarrow> tuples s' a \<noteq> None \<longrightarrow>
             terminalAt (TUPLE_GRAPH s') q = Some a))"

section \<open>Two hosts\<close>

text \<open>A host with every primitive the guard asks for, which converts an integer to its
  decimal digits (as a host does for the integers below \<open>10\<^sup>2\<^sup>1\<close> in size), a function
  to its source and a foreign object to \<^verbatim>\<open>[object Object]\<close>; and the same host without
  weak references.\<close>

fun decimal :: "nat \<Rightarrow> string" where
  "decimal n =
     (if n < 10 then [''0123456789'' ! n]
      else decimal (n div 10) @ [''0123456789'' ! (n mod 10)])"

declare decimal.simps [simp del]

fun hostToString :: "jsval \<Rightarrow> string option" where
  "hostToString (JNum n) =
     Some (if n < 0 then CHR ''-'' # decimal (nat (- n)) else decimal (nat n))"
| "hostToString (JFunction n) = Some ''function () { }''"
| "hostToString (JObject n) = Some ''[object Object]''"
| "hostToString (JTuple a) = Some ''[tuple Tuple]''"
| "hostToString v = None"

definition fullHost :: host where
  "fullHost = \<lparr>weakReference = True, freezing = True, identityComparison = True,
               toStringOf = hostToString\<rparr>"

definition bareHost :: host where
  "bareHost = \<lparr>weakReference = False, freezing = True, identityComparison = True,
               toStringOf = hostToString\<rparr>"

section \<open>Evaluation lemmas\<close>

lemmas record_call_defs =
  Record_def Record_fromEntries_def createRecordFromObject_def objectFromEntries_def
  assertFeatures_def compareEntries_def entryToString_def validateProperty_def
  RECORD_GRAPH_get_def InternGraph_get_def createFreshRecordFromProperties_def
  setProperty_def markRecord_def Object_freeze_def

section \<open>Lemmas\<close>

subsection \<open>The trie\<close>

lemma map_of_assign: "map_of (assign k v kvs) = (map_of kvs)(k \<mapsto> v)"
  by (induction kvs) auto

lemma assign_same: "map_of kvs k = Some v \<Longrightarrow> assign k v kvs = kvs"
  by (induction kvs) (auto split: if_splits)

lemma assign_keys: "fst ` set (assign k v kvs) = insert k (fst ` set kvs)"
  by (induction kvs) force+

lemma assign_distinct: "distinct (map fst kvs) \<Longrightarrow> distinct (map fst (assign k v kvs))"
proof (induction kvs)
  case Nil
  then show ?case by simp
next
  case (Cons x kvs)
  obtain k' v' where x: "x = (k', v')" by (cases x)
  show ?case
  proof (cases "k' = k")
    case True
    with Cons.prems x show ?thesis by simp
  next
    case False
    have "k' \<notin> fst ` set (assign k v kvs)"
      using Cons.prems x False by (simp add: assign_keys)
    with Cons x False show ?thesis by simp
  qed
qed

lemma terminalAt_empty_node: "terminalAt (Node None []) p = None"
  by (cases p) auto

lemma descend_id: "terminalAt g p = Some a \<Longrightarrow> descend g p = g"
proof (induction p arbitrary: g)
  case Nil
  then show ?case by simp
next
  case (Cons e es)
  then obtain c where c: "map_of (children g) e = Some c" "terminalAt c es = Some a"
    by (auto split: option.splits)
  then have "descend c es = c" using Cons.IH by blast
  with c show ?case by (cases g) (simp add: assign_same)
qed

lemma terminalAt_descend: "terminalAt (descend g p) q = terminalAt g q"
proof (induction p arbitrary: g q)
  case Nil
  then show ?case by simp
next
  case (Cons e es)
  show ?case
  proof (cases q)
    case Nil
    then show ?thesis by simp
  next
    case (Cons e' qs)
    then show ?thesis
      using Cons.IH
      by (auto simp: map_of_assign terminalAt_empty_node split: option.splits)
  qed
qed

lemma terminalAt_setTerminal_descend:
  "terminalAt (setTerminal (descend g p) p a) q = (if q = p then Some a else terminalAt g q)"
proof (induction p arbitrary: g q)
  case Nil
  then show ?case by (cases q) auto
next
  case (Cons e es)
  show ?case
  proof (cases q)
    case Nil
    then show ?thesis by (simp add: map_of_assign)
  next
    case (Cons e' qs)
    then show ?thesis
      using Cons.IH
      by (auto simp: map_of_assign terminalAt_empty_node split: option.splits)
  qed
qed

lemma deref_Some: "deref hp t = Some a \<longleftrightarrow> t = Some a \<and> hp a \<noteq> None"
  by (cases t) auto

lemma deref_None: "deref hp t = None \<longleftrightarrow> (\<forall>a. t = Some a \<longrightarrow> hp a = None)"
  by (cases t) auto

lemma InternGraph_get_hit:
  "terminalAt g p = Some a \<Longrightarrow> hp a \<noteq> None \<Longrightarrow>
   InternGraph_get creator p (g, hp, n) = (Inr a, (g, hp, n))"
  by (auto simp: InternGraph_get_def terminalAt_descend descend_id)

lemma InternGraph_get_cases:
  assumes "InternGraph_get creator p (g, hp, n) = (r, (g', hp', n'))"
  shows "(\<exists>a. terminalAt g p = Some a \<and> hp a \<noteq> None \<and> r = Inr a \<and> g' = g \<and> hp' = hp \<and> n' = n) \<or>
         (deref hp (terminalAt g p) = None \<and>
            ((\<exists>e. creator p = Inl e \<and> r = Inl e \<and> g' = descend g p \<and> hp' = hp \<and> n' = n) \<or>
             (\<exists>obj. creator p = Inr obj \<and> r = Inr n \<and> g' = setTerminal (descend g p) p n \<and>
                    hp' = hp(n \<mapsto> obj) \<and> n' = Suc n)))"
proof (cases "deref hp (terminalAt g p)")
  case None
  show ?thesis
  proof (cases "creator p")
    case (Inl e)
    with None assms show ?thesis
      by (simp add: InternGraph_get_def terminalAt_descend)
  next
    case (Inr obj)
    with None assms show ?thesis
      by (simp add: InternGraph_get_def terminalAt_descend)
  qed
next
  case (Some a)
  then have t: "terminalAt g p = Some a" "hp a \<noteq> None"
    by (simp_all add: deref_Some)
  with assms show ?thesis
    by (simp add: InternGraph_get_hit)
qed

lemma interned_mono: "interned g hp n \<Longrightarrow> n \<le> m \<Longrightarrow> interned g hp m"
  unfolding interned_def by (meson less_le_trans)

lemma interned_collect: "interned g hp n \<Longrightarrow> interned g (hp(a := None)) n"
  unfolding interned_def by (auto split: if_splits)

lemma interned_descend: "interned g hp n \<Longrightarrow> interned (descend g p) hp n"
  unfolding interned_def by (simp add: terminalAt_descend)

lemma interned_store:
  assumes inv: "interned g hp n"
    and miss: "deref hp (terminalAt g p) = None"
    and obj: "props obj = p" "isFrozen obj" "isMarked obj"
  shows "interned (setTerminal (descend g p) p n) (hp(n \<mapsto> obj)) (Suc n)"
proof -
  have old: "\<And>a ob. hp a = Some ob \<Longrightarrow>
      a < n \<and> isFrozen ob \<and> isMarked ob \<and> terminalAt g (props ob) = Some a"
    using inv unfolding interned_def by blast
  have slot: "\<And>q a. terminalAt g q = Some a \<Longrightarrow>
      a < n \<and> (\<forall>ob. hp a = Some ob \<longrightarrow> props ob = q)"
    using inv unfolding interned_def by blast
  have other: "props ob \<noteq> p" if "hp a = Some ob" for a ob
  proof
    assume "props ob = p"
    with old [OF that] have "terminalAt g p = Some a" by simp
    with miss that show False by (simp add: deref_None)
  qed
  show ?thesis
    unfolding interned_def terminalAt_setTerminal_descend
  proof (intro conjI allI impI)
    fix a ob assume h: "(hp(n \<mapsto> obj)) a = Some ob"
    show "a < Suc n" using h old by (auto split: if_splits simp: less_Suc_eq)
    show "isFrozen ob" using h old obj by (auto split: if_splits)
    show "isMarked ob" using h old obj by (auto split: if_splits)
    show "(if props ob = p then Some n else terminalAt g (props ob)) = Some a"
    proof (cases "a = n")
      case True
      with h obj show ?thesis by simp
    next
      case False
      with h have "hp a = Some ob" by simp
      with old other show ?thesis by simp
    qed
  next
    fix q a assume t: "(if q = p then Some n else terminalAt g q) = Some a"
    show "a < Suc n" using t slot by (auto split: if_splits simp: less_Suc_eq)
  next
    fix q a ob assume t: "(if q = p then Some n else terminalAt g q) = Some a"
      and h: "(hp(n \<mapsto> obj)) a = Some ob"
    show "props ob = q"
    proof (cases "q = p")
      case True
      with t h obj show ?thesis by simp
    next
      case False
      with t have tq: "terminalAt g q = Some a" by simp
      with slot have "a < n" by blast
      with h have "hp a = Some ob" by simp
      with slot tq show ?thesis by blast
    qed
  qed
qed

lemma interned_get:
  assumes inv: "interned g hp n"
    and creator: "\<And>obj. creator p = Inr obj \<Longrightarrow> props obj = p \<and> isFrozen obj \<and> isMarked obj"
    and get: "InternGraph_get creator p (g, hp, n) = (r, (g', hp', n'))"
  shows "interned g' hp' n'"
  using InternGraph_get_cases [OF get] inv creator
  by (auto simp: interned_descend interned_store)

subsection \<open>Well-keyed graphs and pruning\<close>

lemma wellKeyed_root: "wellKeyed g \<Longrightarrow> distinct (map fst (children g))"
  unfolding wellKeyed_def by (metis nodeAt.simps(1))

lemma wellKeyed_child:
  assumes "wellKeyed g" and "map_of (children g) e = Some c"
  shows "wellKeyed c"
  unfolding wellKeyed_def
proof (intro allI impI)
  fix p n assume "nodeAt c p = Some n"
  with assms(2) have "nodeAt g (e # p) = Some n" by simp
  with assms(1) show "distinct (map fst (children n))" unfolding wellKeyed_def by blast
qed

lemma wellKeyedI:
  assumes "distinct (map fst (children g))"
    and "\<And>e c. map_of (children g) e = Some c \<Longrightarrow> wellKeyed c"
  shows "wellKeyed g"
  unfolding wellKeyed_def
proof (intro allI impI)
  fix p n assume n: "nodeAt g p = Some n"
  show "distinct (map fst (children n))"
  proof (cases p)
    case Nil
    with n assms(1) show ?thesis by simp
  next
    case (Cons e es)
    with n obtain c where c: "map_of (children g) e = Some c" "nodeAt c es = Some n"
      by (auto split: option.splits)
    from assms(2) [OF c(1)] c(2) show ?thesis unfolding wellKeyed_def by blast
  qed
qed

lemma wellKeyed_empty: "wellKeyed (Node None [])"
  by (rule wellKeyedI) simp_all

lemma wellKeyed_descend: "wellKeyed g \<Longrightarrow> wellKeyed (descend g p)"
proof (induction p arbitrary: g)
  case Nil
  then show ?case by simp
next
  case (Cons e es)
  let ?child = "case map_of (children g) e of None \<Rightarrow> Node None [] | Some c \<Rightarrow> c"
  have child: "wellKeyed ?child"
    using Cons.prems by (auto split: option.splits intro: wellKeyed_empty wellKeyed_child)
  show ?case
  proof (rule wellKeyedI)
    show "distinct (map fst (children (descend g (e # es))))"
      using wellKeyed_root [OF Cons.prems] by (simp add: assign_distinct)
  next
    fix e' c assume "map_of (children (descend g (e # es))) e' = Some c"
    then have "(e' = e \<and> c = descend ?child es) \<or> (e' \<noteq> e \<and> map_of (children g) e' = Some c)"
      by (auto simp: map_of_assign split: if_splits)
    then show "wellKeyed c"
      using Cons.IH [OF child] wellKeyed_child [OF Cons.prems] by blast
  qed
qed

lemma wellKeyed_setTerminal: "wellKeyed g \<Longrightarrow> wellKeyed (setTerminal g p a)"
proof (induction p arbitrary: g)
  case Nil
  show ?case
  proof (rule wellKeyedI)
    show "distinct (map fst (children (setTerminal g [] a)))"
      using wellKeyed_root [OF Nil] by simp
  next
    fix e c assume "map_of (children (setTerminal g [] a)) e = Some c"
    then show "wellKeyed c" using wellKeyed_child [OF Nil] by simp
  qed
next
  case (Cons e es)
  show ?case
  proof (cases "map_of (children g) e")
    case None
    with Cons.prems show ?thesis by simp
  next
    case (Some child)
    have child: "wellKeyed child" using Cons.prems Some by (rule wellKeyed_child)
    show ?thesis
    proof (rule wellKeyedI)
      show "distinct (map fst (children (setTerminal g (e # es) a)))"
        using wellKeyed_root [OF Cons.prems] Some by (simp add: assign_distinct)
    next
      fix e' c assume "map_of (children (setTerminal g (e # es) a)) e' = Some c"
      with Some have "(e' = e \<and> c = setTerminal child es a) \<or>
          (e' \<noteq> e \<and> map_of (children g) e' = Some c)"
        by (auto simp: map_of_assign split: if_splits)
      then show "wellKeyed c"
        using Cons.IH [OF child] wellKeyed_child [OF Cons.prems] by blast
    qed
  qed
qed

lemma map_of_pruned:
  "distinct (map fst cs) \<Longrightarrow>
   map_of (filter (\<lambda>ec. \<not> isEmptyNode (snd ec)) (map (map_prod id f) cs)) e =
     (case map_of cs e of
        None \<Rightarrow> None
      | Some c \<Rightarrow> if isEmptyNode (f c) then None else Some (f c))"
proof (induction cs)
  case Nil
  then show ?case by simp
next
  case (Cons x cs)
  obtain k c where x: "x = (k, c)" by (cases x)
  from Cons.prems x have k: "k \<notin> fst ` set cs" and d: "distinct (map fst cs)" by auto
  from k have none: "map_of cs k = None" by (simp add: map_of_eq_None_iff)
  show ?case
  proof (cases "e = k")
    case True
    with x none Cons.IH [OF d] show ?thesis by simp
  next
    case False
    with x Cons.IH [OF d] show ?thesis by simp
  qed
qed

lemma children_prune:
  "children (prune hp g) =
     filter (\<lambda>ec. \<not> isEmptyNode (snd ec)) (map (map_prod id (prune hp)) (children g))"
  by (cases g) simp

lemma terminal_prune: "terminal (prune hp g) = deref hp (terminal g)"
  by (cases g) simp

lemma isEmptyNode_iff: "isEmptyNode n \<longleftrightarrow> n = Node None []"
  by (cases n) auto

lemma terminalAt_prune:
  "wellKeyed g \<Longrightarrow> terminalAt (prune hp g) p = deref hp (terminalAt g p)"
proof (induction p arbitrary: g)
  case Nil
  then show ?case by (simp add: terminal_prune)
next
  case (Cons e es)
  note d = wellKeyed_root [OF Cons.prems]
  show ?case
  proof (cases "map_of (children g) e")
    case None
    with d show ?thesis by (simp add: children_prune map_of_pruned)
  next
    case (Some c)
    have c: "wellKeyed c" using Cons.prems Some by (rule wellKeyed_child)
    note ih = Cons.IH [OF c]
    show ?thesis
    proof (cases "isEmptyNode (prune hp c)")
      case True
      then have "prune hp c = Node None []" by (simp add: isEmptyNode_iff)
      with ih have "deref hp (terminalAt c es) = None"
        by (simp add: terminalAt_empty_node)
      with d Some True show ?thesis by (simp add: children_prune map_of_pruned)
    next
      case False
      with d Some ih show ?thesis by (simp add: children_prune map_of_pruned)
    qed
  qed
qed

lemma wellKeyed_prune: "wellKeyed g \<Longrightarrow> wellKeyed (prune hp g)"
  unfolding wellKeyed_def [of "prune hp g"]
proof (intro allI impI)
  fix p n assume "wellKeyed g" "nodeAt (prune hp g) p = Some n"
  then show "distinct (map fst (children n))"
  proof (induction p arbitrary: g)
    case Nil
    then have n: "n = prune hp g" by simp
    have "distinct (map fst (map (map_prod id (prune hp)) (children g)))"
      using wellKeyed_root [OF Nil(1)] by (simp add: comp_def)
    then show ?case unfolding n children_prune by (rule distinct_map_filter)
  next
    case (Cons e es)
    note d = wellKeyed_root [OF Cons.prems(1)]
    from Cons.prems(2) d obtain c where c: "map_of (children g) e = Some c"
      "nodeAt (prune hp c) es = Some n"
      by (auto simp: children_prune map_of_pruned split: option.splits if_splits)
    from Cons.prems(1) c(1) have "wellKeyed c" by (rule wellKeyed_child)
    from Cons.IH [OF this c(2)] show ?case .
  qed
qed

lemma InternGraph_get_wellKeyed:
  assumes "InternGraph_get creator p (g, hp, n) = (r, (g', hp', n'))" and "wellKeyed g"
  shows "wellKeyed g'"
  using InternGraph_get_cases [OF assms(1)] assms(2)
  by (auto simp: wellKeyed_descend wellKeyed_setTerminal)

lemma interned_prune:
  assumes "interned g hp n" and "wellKeyed g"
  shows "interned (prune hp g) hp n"
  using assms(1) unfolding interned_def terminalAt_prune [OF assms(2)]
  by (auto simp: deref_Some)

subsection \<open>Sorting, validation and the creators\<close>

lemma insertSorted_set: "insertSorted cmp x ys = Inr zs \<Longrightarrow> set zs = insert x (set ys)"
proof (induction ys arbitrary: zs)
  case Nil
  then show ?case by auto
next
  case (Cons y ys)
  show ?case
  proof (cases "cmp x y")
    case (Inl e)
    with Cons.prems show ?thesis by simp
  next
    case (Inr c)
    show ?thesis
    proof (cases "c \<le> 0")
      case True
      with Inr Cons.prems show ?thesis by auto
    next
      case False
      with Inr Cons.prems obtain zs' where z: "insertSorted cmp x ys = Inr zs'" "zs = y # zs'"
        by (auto split: sum.splits)
      from Cons.IH [OF z(1)] z(2) show ?thesis by auto
    qed
  qed
qed

lemma insertSorted_distinct:
  "insertSorted cmp x ys = Inr zs \<Longrightarrow> distinct (map f (x # ys)) \<Longrightarrow> distinct (map f zs)"
proof (induction ys arbitrary: zs)
  case Nil
  then show ?case by auto
next
  case (Cons y ys)
  show ?case
  proof (cases "cmp x y")
    case (Inl e)
    with Cons.prems show ?thesis by simp
  next
    case (Inr c)
    show ?thesis
    proof (cases "c \<le> 0")
      case True
      with Inr Cons.prems show ?thesis by auto
    next
      case False
      with Inr Cons.prems obtain zs' where z: "insertSorted cmp x ys = Inr zs'" "zs = y # zs'"
        by (auto split: sum.splits)
      from Cons.prems(2) have "distinct (map f (x # ys))" by auto
      with Cons.IH z have d: "distinct (map f zs')" by blast
      from insertSorted_set [OF z(1)] have "set zs' = insert x (set ys)" .
      with Cons.prems(2) d z show ?thesis by auto
    qed
  qed
qed

lemma Array_sort_set: "Array_sort cmp xs = Inr ys \<Longrightarrow> set ys = set xs"
proof (induction xs arbitrary: ys)
  case Nil
  then show ?case by simp
next
  case (Cons x xs)
  then obtain ys' where y: "Array_sort cmp xs = Inr ys'" "insertSorted cmp x ys' = Inr ys"
    by (auto split: sum.splits)
  from Cons.IH [OF y(1)] insertSorted_set [OF y(2)] show ?case by simp
qed

lemma Array_sort_distinct:
  "Array_sort cmp xs = Inr ys \<Longrightarrow> distinct (map f xs) \<Longrightarrow> distinct (map f ys)"
proof (induction xs arbitrary: ys)
  case Nil
  then show ?case by simp
next
  case (Cons x xs)
  then obtain ys' where y: "Array_sort cmp xs = Inr ys'" "insertSorted cmp x ys' = Inr ys"
    by (auto split: sum.splits)
  with Cons have "distinct (map f ys')" by auto
  moreover have "set ys' = set xs" using y(1) by (rule Array_sort_set)
  ultimately have "distinct (map f (x # ys'))" using Cons.prems(2) by auto
  with y(2) show ?case by (rule insertSorted_distinct)
qed

lemma validateProperty_Inr: "validateProperty v = Inr w \<longleftrightarrow> classify v \<noteq> Invalid \<and> w = v"
  by (auto simp: validateProperty_def)

lemma validateProperty_Inl:
  "validateProperty v = Inl e \<longleftrightarrow> classify v = Invalid \<and> e = InvalidEntry None v"
  by (auto simp: validateProperty_def)

lemma validateAll_ok:
  "\<forall>e\<in>set xs. classify (snd e) \<noteq> Invalid \<Longrightarrow> validateAll xs = Inr xs"
  by (induction xs) (auto simp: validateProperty_def)

lemma validateAll_Inr:
  "validateAll xs = Inr ys \<Longrightarrow> ys = xs \<and> (\<forall>e\<in>set xs. classify (snd e) \<noteq> Invalid)"
proof (induction xs arbitrary: ys)
  case Nil
  then show ?case by simp
next
  case (Cons x xs)
  obtain k v where x: "x = (k, v)" by (cases x)
  from Cons.prems x have v: "classify v \<noteq> Invalid"
    by (auto simp: validateProperty_def split: if_splits)
  with Cons.prems x obtain zs where z: "validateAll xs = Inr zs" "ys = (k, v) # zs"
    by (auto simp: validateProperty_def split: sum.splits)
  from Cons.IH [OF z(1)] z(2) x v show ?case by simp
qed

lemma validateAll_Inl:
  "validateAll xs = Inl e \<Longrightarrow>
   \<exists>k v. (k, v) \<in> set xs \<and> classify v = Invalid \<and> e = InvalidEntry None v"
proof (induction xs)
  case Nil
  then show ?case by simp
next
  case (Cons x xs)
  obtain k v where x: "x = (k, v)" by (cases x)
  show ?case
  proof (cases "classify v = Invalid")
    case True
    with Cons.prems x show ?thesis by (auto simp: validateProperty_def)
  next
    case False
    with Cons.prems x have "validateAll xs = Inl e"
      by (auto simp: validateProperty_def split: sum.splits)
    with Cons.IH x show ?thesis by auto
  qed
qed

lemma assign_append: "k \<notin> fst ` set kvs \<Longrightarrow> assign k v kvs = kvs @ [(k, v)]"
  by (induction kvs) auto

lemma assignProperties_valid:
  "assignProperties ps r = Inr r' \<Longrightarrow> \<forall>e\<in>set ps. classify (snd e) \<noteq> Invalid"
  by (induction ps r rule: assignProperties.induct)
     (auto simp: validateProperty_Inr split: sum.splits)

lemma assignProperties_total:
  "\<forall>e\<in>set ps. classify (snd e) \<noteq> Invalid \<Longrightarrow> \<exists>r'. assignProperties ps r = Inr r'"
  by (induction ps r rule: assignProperties.induct)
     (auto simp: validateProperty_Inr validateProperty_Inl split: sum.splits)

lemma assignProperties_props:
  "assignProperties ps r = Inr r' \<Longrightarrow> \<not> isFrozen r \<Longrightarrow> distinct (map fst ps) \<Longrightarrow>
   fst ` set ps \<inter> fst ` set (props r) = {} \<Longrightarrow>
   props r' = props r @ ps \<and> \<not> isFrozen r'"
proof (induction ps r arbitrary: r' rule: assignProperties.induct)
  case (1 rcd)
  then show ?case by simp
next
  case (2 name "value" rest rcd)
  from "2.prems"(1) have v: "validateProperty value = Inr value"
    and rest: "assignProperties rest (setProperty name value rcd) = Inr r'"
    by (auto simp: validateProperty_Inr split: sum.splits)
  from "2.prems" have fresh: "name \<notin> fst ` set (props rcd)" by auto
  with "2.prems"(2) have sp: "props (setProperty name value rcd) = props rcd @ [(name, value)]"
    "\<not> isFrozen (setProperty name value rcd)"
    by (simp_all add: setProperty_def assign_append)
  have "fst ` set rest \<inter> fst ` set (props (setProperty name value rcd)) = {}"
    using "2.prems"(3,4) sp(1) by auto
  with "2.IH" [OF v rest sp(2)] "2.prems"(3) sp(1) show ?case by simp
qed

lemma createFreshRecordFromProperties_Inr:
  assumes "createFreshRecordFromProperties ps = Inr obj" and "distinct (map fst ps)"
  shows "props obj = ps \<and> isFrozen obj \<and> isMarked obj"
proof -
  from assms(1) obtain r where r: "assignProperties ps \<lparr>props = [], isFrozen = False, isMarked = False\<rparr> = Inr r"
    and obj: "obj = markRecord (Object_freeze r)"
    by (auto simp: createFreshRecordFromProperties_def split: sum.splits)
  from assignProperties_props [OF r] assms(2) have "props r = ps" by simp
  with obj show ?thesis by (simp add: markRecord_def Object_freeze_def)
qed

lemma createFreshRecordFromProperties_total:
  "\<forall>e\<in>set ps. classify (snd e) \<noteq> Invalid \<Longrightarrow> \<exists>obj. createFreshRecordFromProperties ps = Inr obj"
  using assignProperties_total [of ps "\<lparr>props = [], isFrozen = False, isMarked = False\<rparr>"]
  by (auto simp: createFreshRecordFromProperties_def)

lemma createFreshTuple_Inr:
  "createFreshTuple es = Inr obj \<Longrightarrow> props obj = es \<and> isFrozen obj \<and> isMarked obj"
  by (auto simp: createFreshTuple_def markRecord_def Object_freeze_def)

subsection \<open>One call of the graph\<close>

lemma InternGraph_get_fresh:
  "InternGraph_get creator p (g, hp, n) = (r, (g', hp', n')) \<Longrightarrow> n \<le> n'"
  using InternGraph_get_cases [of creator p g hp n r g' hp' n'] by auto

lemma InternGraph_get_old:
  assumes "InternGraph_get creator p (g, hp, n) = (r, (g', hp', n'))"
    and "hp' a = Some obj" and "a < n"
  shows "hp a = Some obj"
  using InternGraph_get_cases [OF assms(1)] assms(2,3) by (auto split: if_splits)

lemma InternGraph_get_terminal:
  assumes inv: "interned g hp n"
    and get: "InternGraph_get creator p (g, hp, n) = (r, (g', hp', n'))"
    and t: "terminalAt g q = Some a" and live: "hp' a \<noteq> None"
  shows "terminalAt g' q = Some a"
proof -
  from inv t have a: "a < n" unfolding interned_def by blast
  from InternGraph_get_cases [OF get] show ?thesis
  proof (elim disjE exE conjE)
    fix b assume "g' = g"
    with t show ?thesis by simp
  next
    fix e assume "g' = descend g p"
    with t show ?thesis by (simp add: terminalAt_descend)
  next
    fix obj assume miss: "deref hp (terminalAt g p) = None"
      and g': "g' = setTerminal (descend g p) p n" and hp': "hp' = hp(n \<mapsto> obj)"
    from a hp' live have "hp a \<noteq> None" by auto
    with miss t have "q \<noteq> p" by (auto simp: deref_None)
    with g' t show ?thesis by (simp add: terminalAt_setTerminal_descend)
  qed
qed

lemma InternGraph_get_result:
  assumes "InternGraph_get creator p (g, hp, n) = (Inr a, (g', hp', n'))"
  shows "terminalAt g' p = Some a \<and> hp' a \<noteq> None"
  using InternGraph_get_cases [OF assms]
  by (auto simp: terminalAt_setTerminal_descend)

lemma InternGraph_get_error:
  assumes "InternGraph_get creator p (g, hp, n) = (Inl e, st)"
  shows "creator p = Inl e"
proof -
  obtain g' hp' n' where "st = (g', hp', n')" by (cases st) auto
  with InternGraph_get_cases [of creator p g hp n "Inl e" g' hp' n'] assms show ?thesis by auto
qed

lemma interned_canonical: "interned g hp n \<Longrightarrow> canonical hp"
  unfolding interned_def canonical_def
  by (metis option.inject)

lemma interned_init: "interned (Node None []) Map.empty 0"
  unfolding interned_def by (simp add: terminalAt_empty_node)

lemma invariant_init: "invariant init"
  by (simp add: invariant_def init_def interned_init wellKeyed_empty)

subsection \<open>Steps on the state\<close>

lemma keeps_refl: "keeps s s"
  by (simp add: keeps_def)

lemma invariant_terminal_bound:
  "invariant s \<Longrightarrow> terminalAt (RECORD_GRAPH s) q = Some a \<Longrightarrow> a < fresh s"
  "invariant s \<Longrightarrow> terminalAt (TUPLE_GRAPH s) q' = Some a \<Longrightarrow> a < fresh s"
  unfolding invariant_def interned_def by blast+

lemma keeps_trans:
  assumes inv: "invariant s" and k1: "keeps s s'" and k2: "keeps s' s''"
  shows "keeps s s''"
  unfolding keeps_def
proof (intro conjI allI impI)
  show "fresh s \<le> fresh s''" using k1 k2 by (auto simp: keeps_def)
next
  fix a obj assume "records s'' a = Some obj" "a < fresh s"
  moreover have "fresh s \<le> fresh s'" using k1 by (simp add: keeps_def)
  ultimately show "records s a = Some obj"
    using k1 k2 unfolding keeps_def by (meson less_le_trans)
next
  fix a obj assume "tuples s'' a = Some obj" "a < fresh s"
  moreover have "fresh s \<le> fresh s'" using k1 by (simp add: keeps_def)
  ultimately show "tuples s a = Some obj"
    using k1 k2 unfolding keeps_def by (meson less_le_trans)
next
  fix q a assume t: "terminalAt (RECORD_GRAPH s) q = Some a" and l: "records s'' a \<noteq> None"
  from inv t have "a < fresh s" by (rule invariant_terminal_bound)
  moreover have "fresh s \<le> fresh s'" using k1 by (simp add: keeps_def)
  ultimately have "a < fresh s'" by simp
  with l k2 have l': "records s' a \<noteq> None" unfolding keeps_def by force
  with t k1 have "terminalAt (RECORD_GRAPH s') q = Some a" unfolding keeps_def by blast
  with l k2 show "terminalAt (RECORD_GRAPH s'') q = Some a" unfolding keeps_def by blast
next
  fix q a assume t: "terminalAt (TUPLE_GRAPH s) q = Some a" and l: "tuples s'' a \<noteq> None"
  from inv t have "a < fresh s" by (rule invariant_terminal_bound)
  moreover have "fresh s \<le> fresh s'" using k1 by (simp add: keeps_def)
  ultimately have "a < fresh s'" by simp
  with l k2 have l': "tuples s' a \<noteq> None" unfolding keeps_def by force
  with t k1 have "terminalAt (TUPLE_GRAPH s') q = Some a" unfolding keeps_def by blast
  with l k2 show "terminalAt (TUPLE_GRAPH s'') q = Some a" unfolding keeps_def by blast
qed

lemma RECORD_GRAPH_get_eq:
  "InternGraph_get createFreshRecordFromProperties ps (RECORD_GRAPH s, records s, fresh s)
     = (r, (g', hp', n')) \<Longrightarrow>
   RECORD_GRAPH_get ps s = (r, s\<lparr>RECORD_GRAPH := g', records := hp', fresh := n'\<rparr>)"
  by (simp add: RECORD_GRAPH_get_def)

lemma TUPLE_GRAPH_get_eq:
  "InternGraph_get createFreshTuple es (TUPLE_GRAPH s, tuples s, fresh s)
     = (r, (g', hp', n')) \<Longrightarrow>
   TUPLE_GRAPH_get es s = (r, s\<lparr>TUPLE_GRAPH := g', tuples := hp', fresh := n'\<rparr>)"
  by (simp add: TUPLE_GRAPH_get_def)

lemma RECORD_GRAPH_get_step:
  assumes inv: "invariant s" and d: "distinct (map fst ps)"
  shows "invariant (snd (RECORD_GRAPH_get ps s)) \<and> keeps s (snd (RECORD_GRAPH_get ps s))"
proof -
  obtain r g' hp' n' where get:
    "InternGraph_get createFreshRecordFromProperties ps (RECORD_GRAPH s, records s, fresh s)
       = (r, (g', hp', n'))"
    by (metis prod_cases4)
  let ?s' = "s\<lparr>RECORD_GRAPH := g', records := hp', fresh := n'\<rparr>"
  have s': "snd (RECORD_GRAPH_get ps s) = ?s'"
    using RECORD_GRAPH_get_eq [OF get] by simp
  from inv have ir: "interned (RECORD_GRAPH s) (records s) (fresh s)"
    and it: "interned (TUPLE_GRAPH s) (tuples s) (fresh s)"
    by (simp_all add: invariant_def)
  have n: "fresh s \<le> n'" using get by (rule InternGraph_get_fresh)
  have "interned g' hp' n'"
    using ir _ get
  proof (rule interned_get)
    fix obj assume "createFreshRecordFromProperties ps = Inr obj"
    then show "props obj = ps \<and> isFrozen obj \<and> isMarked obj"
      using d by (rule createFreshRecordFromProperties_Inr)
  qed
  moreover have "interned (TUPLE_GRAPH s) (tuples s) n'"
    using it n by (rule interned_mono)
  moreover have "wellKeyed g'"
    using get inv by (auto simp: invariant_def intro: InternGraph_get_wellKeyed)
  moreover have "wellKeyed (TUPLE_GRAPH s)"
    using inv by (simp add: invariant_def)
  ultimately have "invariant ?s'" by (simp add: invariant_def)
  moreover have "keeps s ?s'"
    unfolding keeps_def
  proof (intro conjI allI impI)
    show "fresh s \<le> fresh ?s'" using n by simp
  next
    fix a obj assume "records ?s' a = Some obj" "a < fresh s"
    then show "records s a = Some obj"
      using InternGraph_get_old [OF get] by simp
  next
    fix a obj assume "tuples ?s' a = Some obj"
    then show "tuples s a = Some obj" by simp
  next
    fix q a assume "terminalAt (RECORD_GRAPH s) q = Some a" "records ?s' a \<noteq> None"
    then show "terminalAt (RECORD_GRAPH ?s') q = Some a"
      using InternGraph_get_terminal [OF ir get] by simp
  next
    fix q a assume "terminalAt (TUPLE_GRAPH s) q = Some a"
    then show "terminalAt (TUPLE_GRAPH ?s') q = Some a" by simp
  qed
  ultimately show ?thesis by (simp only: s')
qed

lemma TUPLE_GRAPH_get_step:
  assumes inv: "invariant s"
  shows "invariant (snd (TUPLE_GRAPH_get es s)) \<and> keeps s (snd (TUPLE_GRAPH_get es s))"
proof -
  obtain r g' hp' n' where get:
    "InternGraph_get createFreshTuple es (TUPLE_GRAPH s, tuples s, fresh s) = (r, (g', hp', n'))"
    by (metis prod_cases4)
  let ?s' = "s\<lparr>TUPLE_GRAPH := g', tuples := hp', fresh := n'\<rparr>"
  have s': "snd (TUPLE_GRAPH_get es s) = ?s'"
    using TUPLE_GRAPH_get_eq [OF get] by simp
  from inv have ir: "interned (RECORD_GRAPH s) (records s) (fresh s)"
    and it: "interned (TUPLE_GRAPH s) (tuples s) (fresh s)"
    by (simp_all add: invariant_def)
  have n: "fresh s \<le> n'" using get by (rule InternGraph_get_fresh)
  have "interned g' hp' n'"
    using it _ get
  proof (rule interned_get)
    fix obj assume "createFreshTuple es = Inr obj"
    then show "props obj = es \<and> isFrozen obj \<and> isMarked obj"
      by (rule createFreshTuple_Inr)
  qed
  moreover have "interned (RECORD_GRAPH s) (records s) n'"
    using ir n by (rule interned_mono)
  moreover have "wellKeyed g'"
    using get inv by (auto simp: invariant_def intro: InternGraph_get_wellKeyed)
  moreover have "wellKeyed (RECORD_GRAPH s)"
    using inv by (simp add: invariant_def)
  ultimately have "invariant ?s'" by (simp add: invariant_def)
  moreover have "keeps s ?s'"
    unfolding keeps_def
  proof (intro conjI allI impI)
    show "fresh s \<le> fresh ?s'" using n by simp
  next
    fix a obj assume "tuples ?s' a = Some obj" "a < fresh s"
    then show "tuples s a = Some obj"
      using InternGraph_get_old [OF get] by simp
  next
    fix a obj assume "records ?s' a = Some obj"
    then show "records s a = Some obj" by simp
  next
    fix q a assume "terminalAt (TUPLE_GRAPH s) q = Some a" "tuples ?s' a \<noteq> None"
    then show "terminalAt (TUPLE_GRAPH ?s') q = Some a"
      using InternGraph_get_terminal [OF it get] by simp
  next
    fix q a assume "terminalAt (RECORD_GRAPH s) q = Some a"
    then show "terminalAt (RECORD_GRAPH ?s') q = Some a" by simp
  qed
  ultimately show ?thesis by (simp only: s')
qed

subsection \<open>Constructor calls and the environment\<close>

lemma Record_cases:
  assumes "wellFormed value"
  shows "(\<exists>e. \<forall>s. Record h value s = (Inl e, s)) \<or>
         (\<exists>ps. distinct (map fst ps) \<and> (\<forall>e\<in>set ps. classify (snd e) \<noteq> Invalid) \<and>
               set ps = set (Object_entries value) \<and>
               (\<forall>s. Record h value s = RECORD_GRAPH_get ps s))"
proof (cases "assertFeatures h")
  case (Inl e)
  then show ?thesis by (simp add: Record_def createRecordFromObject_def)
next
  case caps: (Inr u)
  show ?thesis
  proof (cases "value")
    case NotAnObject
    with caps show ?thesis by (simp add: Record_def createRecordFromObject_def)
  next
    case (AnObject es)
    with assms have d: "distinct (map fst es)" by simp
    show ?thesis
    proof (cases "Array_sort (compareEntries h) es")
      case (Inl e)
      with caps AnObject show ?thesis by (simp add: Record_def createRecordFromObject_def)
    next
      case sorted: (Inr ordered)
      show ?thesis
      proof (cases "validateAll ordered")
        case (Inl e)
        with caps AnObject sorted show ?thesis
          by (simp add: Record_def createRecordFromObject_def)
      next
        case (Inr ps)
        then have ps: "ps = ordered" "\<forall>e\<in>set ordered. classify (snd e) \<noteq> Invalid"
          by (auto dest: validateAll_Inr)
        have "distinct (map fst ordered)" using sorted d by (rule Array_sort_distinct)
        moreover have "set ordered = set es" using sorted by (rule Array_sort_set)
        moreover have "\<forall>s. Record h value s = RECORD_GRAPH_get ordered s"
          using caps AnObject sorted Inr ps(1) by (simp add: Record_def createRecordFromObject_def)
        ultimately have "distinct (map fst ordered) \<and>
            (\<forall>e\<in>set ordered. classify (snd e) \<noteq> Invalid) \<and>
            set ordered = set (Object_entries value) \<and>
            (\<forall>s. Record h value s = RECORD_GRAPH_get ordered s)"
          using ps(2) AnObject by simp
        then show ?thesis by blast
      qed
    qed
  qed
qed

lemma Tuple_cases:
  "(\<exists>e. \<forall>s. Tuple h vs s = (Inl e, s)) \<or> (\<exists>es. \<forall>s. Tuple h vs s = TUPLE_GRAPH_get es s)"
proof (cases "normalizeTuple 0 vs")
  case (Inl e)
  then show ?thesis by (simp add: Tuple_def)
next
  case (Inr es)
  then have "\<forall>s. Tuple h vs s = TUPLE_GRAPH_get es s" by (simp add: Tuple_def)
  then show ?thesis by blast
qed

lemma foldl_assign_distinct:
  "distinct (map fst acc) \<Longrightarrow>
   distinct (map fst (foldl (\<lambda>obj (k, v). assign k v obj) acc pairs))"
  by (induction pairs arbitrary: acc) (auto simp: assign_distinct split: prod.splits)

lemma objectFromEntries_wellFormed: "wellFormed (objectFromEntries pairs)"
  by (simp add: objectFromEntries_def foldl_assign_distinct)

lemma foldl_assign_append:
  "distinct (map fst (acc @ pairs)) \<Longrightarrow>
   foldl (\<lambda>obj (k, v). assign k v obj) acc pairs = acc @ pairs"
proof (induction pairs arbitrary: acc)
  case Nil
  then show ?case by simp
next
  case (Cons x pairs)
  obtain k v where x: "x = (k, v)" by (cases x)
  from Cons.prems x have "k \<notin> fst ` set acc" by auto
  then have a: "assign k v acc = acc @ [(k, v)]" by (rule assign_append)
  from Cons.prems x have "distinct (map fst ((acc @ [(k, v)]) @ pairs))" by simp
  from Cons.IH [OF this] a x show ?case by simp
qed

lemma fromEntries_is_Record:
  "distinct (map fst pairs) \<Longrightarrow> Record_fromEntries h pairs s = Record h (AnObject pairs) s"
  using foldl_assign_append [of "[]" pairs]
  by (simp add: Record_fromEntries_def Record_def objectFromEntries_def)

lemma Record_step:
  assumes "invariant s" and "wellFormed value"
  shows "invariant (snd (Record h value s)) \<and> keeps s (snd (Record h value s))"
  using Record_cases [OF assms(2), of h]
proof (elim disjE exE conjE)
  fix e assume "\<forall>s. Record h value s = (Inl e, s)"
  with assms(1) show ?thesis by (simp add: keeps_refl)
next
  fix ps assume "distinct (map fst ps)" "\<forall>s. Record h value s = RECORD_GRAPH_get ps s"
  with RECORD_GRAPH_get_step [OF assms(1), of ps] show ?thesis by simp
qed

lemma Tuple_step:
  assumes "invariant s"
  shows "invariant (snd (Tuple h vs s)) \<and> keeps s (snd (Tuple h vs s))"
  using Tuple_cases [of h vs]
proof (elim disjE exE)
  fix e assume "\<forall>s. Tuple h vs s = (Inl e, s)"
  with assms show ?thesis by (simp add: keeps_refl)
next
  fix es assume "\<forall>s. Tuple h vs s = TUPLE_GRAPH_get es s"
  with TUPLE_GRAPH_get_step [OF assms, of es] show ?thesis by simp
qed

lemma attempt_frozen:
  "isFrozen obj \<Longrightarrow> attempt strict m obj = Inr obj' \<Longrightarrow> obj' = obj"
  by (cases m) (auto simp: setProperty_def deleteProperty_def split: if_splits)

lemma mutateRecord_frozen:
  assumes "invariant s"
  shows "snd (mutateRecord strict a m s) = s"
proof (cases "records s a")
  case None
  then show ?thesis by (simp add: mutateRecord_def)
next
  case (Some obj)
  with assms have fr: "isFrozen obj" unfolding invariant_def interned_def by blast
  show ?thesis
  proof (cases "attempt strict m obj")
    case (Inl e)
    with Some show ?thesis by (simp add: mutateRecord_def)
  next
    case (Inr obj')
    with fr have "obj' = obj" by (rule attempt_frozen)
    with Some Inr have "(records s)(a \<mapsto> obj') = records s" by (simp add: map_upd_triv)
    with Some Inr show ?thesis by (simp add: mutateRecord_def)
  qed
qed

lemma mutateTuple_frozen:
  assumes "invariant s"
  shows "snd (mutateTuple strict a m s) = s"
proof (cases "tuples s a")
  case None
  then show ?thesis by (simp add: mutateTuple_def)
next
  case (Some obj)
  with assms have fr: "isFrozen obj" unfolding invariant_def interned_def by blast
  show ?thesis
  proof (cases "attempt strict m obj")
    case (Inl e)
    with Some show ?thesis by (simp add: mutateTuple_def)
  next
    case (Inr obj')
    with fr have "obj' = obj" by (rule attempt_frozen)
    with Some Inr have "(tuples s)(a \<mapsto> obj') = tuples s" by (simp add: map_upd_triv)
    with Some Inr show ?thesis by (simp add: mutateTuple_def)
  qed
qed

lemma collectRecord_step:
  assumes "invariant s"
  shows "invariant (collectRecord a s) \<and> keeps s (collectRecord a s)"
proof
  show "invariant (collectRecord a s)"
    using assms by (simp add: invariant_def collectRecord_def interned_collect)
  show "keeps s (collectRecord a s)"
    by (auto simp: keeps_def collectRecord_def split: if_splits)
qed

lemma collectTuple_step:
  assumes "invariant s"
  shows "invariant (collectTuple a s) \<and> keeps s (collectTuple a s)"
proof
  show "invariant (collectTuple a s)"
    using assms by (simp add: invariant_def collectTuple_def interned_collect)
  show "keeps s (collectTuple a s)"
    by (auto simp: keeps_def collectTuple_def split: if_splits)
qed

lemma sweep_step:
  assumes "invariant s"
  shows "invariant (sweep s) \<and> keeps s (sweep s)"
proof
  from assms have wr: "wellKeyed (RECORD_GRAPH s)" and wt: "wellKeyed (TUPLE_GRAPH s)"
    and ir: "interned (RECORD_GRAPH s) (records s) (fresh s)"
    and it: "interned (TUPLE_GRAPH s) (tuples s) (fresh s)"
    by (simp_all add: invariant_def)
  show "invariant (sweep s)"
    using wr wt ir it
    by (simp add: invariant_def sweep_def interned_prune wellKeyed_prune)
  show "keeps s (sweep s)"
    unfolding keeps_def
    by (simp add: sweep_def terminalAt_prune [OF wr] terminalAt_prune [OF wt])
qed

lemma perform_step:
  assumes "invariant s" and "admissible act"
  shows "invariant (perform act s) \<and> keeps s (perform act s)"
proof (cases act)
  case (Call_Record h v)
  with assms Record_step [of s v h] show ?thesis by simp
next
  case (Call_fromEntries h pairs)
  with assms(1) Record_step [OF assms(1) objectFromEntries_wellFormed, of h pairs]
  show ?thesis by (simp add: Record_fromEntries_def Record_def)
next
  case (Call_Tuple h vs)
  with Tuple_step [OF assms(1), of h vs] show ?thesis by simp
next
  case (Mutate_Record strict a m)
  with assms(1) show ?thesis by (simp add: mutateRecord_frozen keeps_refl)
next
  case (Mutate_Tuple strict a m)
  with assms(1) show ?thesis by (simp add: mutateTuple_frozen keeps_refl)
next
  case (Collect_Record a)
  with collectRecord_step [OF assms(1), of a] show ?thesis by simp
next
  case (Collect_Tuple a)
  with collectTuple_step [OF assms(1), of a] show ?thesis by simp
next
  case Sweep
  with sweep_step [OF assms(1)] show ?thesis by simp
qed

lemma evolves_keeps:
  "evolves s s' \<Longrightarrow> invariant s \<Longrightarrow> invariant s' \<and> keeps s s'"
proof (induction rule: evolves.induct)
  case (evolves_refl s)
  then show ?case by (simp add: keeps_refl)
next
  case (evolves_step s s' act)
  then have i: "invariant s'" and k: "keeps s s'" by simp_all
  from perform_step [OF i evolves_step.hyps(2)]
  have "invariant (perform act s')" "keeps s' (perform act s')" by simp_all
  with keeps_trans [OF evolves_step.prems k] show ?case by simp
qed

lemma reachable_invariant: "reachable s \<Longrightarrow> invariant s"
  unfolding reachable_def using evolves_keeps invariant_init by blast

lemma evolves_trans: "evolves s1 s2 \<Longrightarrow> evolves s0 s1 \<Longrightarrow> evolves s0 s2"
  by (induction rule: evolves.induct) (auto intro: evolves.intros)

subsection \<open>Calling again\<close>

lemma RECORD_GRAPH_get_live:
  assumes "RECORD_GRAPH_get ps s = (Inr a, s1)"
  shows "terminalAt (RECORD_GRAPH s1) ps = Some a \<and> records s1 a \<noteq> None"
proof -
  obtain r g' hp' n' where get:
    "InternGraph_get createFreshRecordFromProperties ps (RECORD_GRAPH s, records s, fresh s)
       = (r, (g', hp', n'))"
    by (metis prod_cases4)
  from RECORD_GRAPH_get_eq [OF get] assms
  have r: "r = Inr a" and s1: "s1 = s\<lparr>RECORD_GRAPH := g', records := hp', fresh := n'\<rparr>"
    by simp_all
  from InternGraph_get_result [OF get [unfolded r]] s1 show ?thesis by simp
qed

lemma TUPLE_GRAPH_get_live:
  assumes "TUPLE_GRAPH_get es s = (Inr a, s1)"
  shows "terminalAt (TUPLE_GRAPH s1) es = Some a \<and> tuples s1 a \<noteq> None"
proof -
  obtain r g' hp' n' where get:
    "InternGraph_get createFreshTuple es (TUPLE_GRAPH s, tuples s, fresh s) = (r, (g', hp', n'))"
    by (metis prod_cases4)
  from TUPLE_GRAPH_get_eq [OF get] assms
  have r: "r = Inr a" and s1: "s1 = s\<lparr>TUPLE_GRAPH := g', tuples := hp', fresh := n'\<rparr>"
    by simp_all
  from InternGraph_get_result [OF get [unfolded r]] s1 show ?thesis by simp
qed

lemma RECORD_GRAPH_get_hit:
  assumes "terminalAt (RECORD_GRAPH s) ps = Some a" and "records s a \<noteq> None"
  shows "RECORD_GRAPH_get ps s = (Inr a, s)"
  using assms
    InternGraph_get_hit [of "RECORD_GRAPH s" ps a "records s" createFreshRecordFromProperties "fresh s"]
  by (simp add: RECORD_GRAPH_get_def)

lemma TUPLE_GRAPH_get_hit:
  assumes "terminalAt (TUPLE_GRAPH s) es = Some a" and "tuples s a \<noteq> None"
  shows "TUPLE_GRAPH_get es s = (Inr a, s)"
  using assms
    InternGraph_get_hit [of "TUPLE_GRAPH s" es a "tuples s" createFreshTuple "fresh s"]
  by (simp add: TUPLE_GRAPH_get_def)

lemma RECORD_GRAPH_get_again:
  assumes inv: "invariant s" and d: "distinct (map fst ps)"
    and get: "RECORD_GRAPH_get ps s = (Inr a, s1)"
    and ev: "evolves s1 s2" and live: "records s2 a \<noteq> None"
  shows "RECORD_GRAPH_get ps s2 = (Inr a, s2)"
proof -
  from RECORD_GRAPH_get_step [OF inv d] get have i1: "invariant s1" by simp
  from RECORD_GRAPH_get_live [OF get] have t: "terminalAt (RECORD_GRAPH s1) ps = Some a" by simp
  from evolves_keeps [OF ev i1] have "keeps s1 s2" by simp
  with t live have "terminalAt (RECORD_GRAPH s2) ps = Some a" unfolding keeps_def by blast
  then show ?thesis using live by (rule RECORD_GRAPH_get_hit)
qed

lemma TUPLE_GRAPH_get_again:
  assumes inv: "invariant s"
    and get: "TUPLE_GRAPH_get es s = (Inr a, s1)"
    and ev: "evolves s1 s2" and live: "tuples s2 a \<noteq> None"
  shows "TUPLE_GRAPH_get es s2 = (Inr a, s2)"
proof -
  from TUPLE_GRAPH_get_step [OF inv] get have i1: "invariant s1" by (metis snd_conv)
  from TUPLE_GRAPH_get_live [OF get] have t: "terminalAt (TUPLE_GRAPH s1) es = Some a" by simp
  from evolves_keeps [OF ev i1] have "keeps s1 s2" by simp
  with t live have "terminalAt (TUPLE_GRAPH s2) es = Some a" unfolding keeps_def by blast
  then show ?thesis using live by (rule TUPLE_GRAPH_get_hit)
qed

lemma Record_again:
  assumes inv: "invariant s" and wf: "wellFormed value"
    and call: "Record h value s = (Inr a, s1)"
    and ev: "evolves s1 s2" and live: "records s2 a \<noteq> None"
  shows "Record h value s2 = (Inr a, s2)"
  using Record_cases [OF wf, of h]
proof (elim disjE exE conjE)
  fix e assume "\<forall>s. Record h value s = (Inl e, s)"
  with call show ?thesis by simp
next
  fix ps assume d: "distinct (map fst ps)" and eq: "\<forall>s. Record h value s = RECORD_GRAPH_get ps s"
  with call have "RECORD_GRAPH_get ps s = (Inr a, s1)" by simp
  from RECORD_GRAPH_get_again [OF inv d this ev live] eq show ?thesis by simp
qed

lemma Tuple_again:
  assumes inv: "invariant s"
    and call: "Tuple h vs s = (Inr a, s1)"
    and ev: "evolves s1 s2" and live: "tuples s2 a \<noteq> None"
  shows "Tuple h vs s2 = (Inr a, s2)"
  using Tuple_cases [of h vs]
proof (elim disjE exE)
  fix e assume "\<forall>s. Tuple h vs s = (Inl e, s)"
  with call show ?thesis by simp
next
  fix es assume eq: "\<forall>s. Tuple h vs s = TUPLE_GRAPH_get es s"
  with call have "TUPLE_GRAPH_get es s = (Inr a, s1)" by simp
  from TUPLE_GRAPH_get_again [OF inv this ev live] eq show ?thesis by simp
qed

lemma invariant_canonical: "invariant s \<Longrightarrow> canonical (records s) \<and> canonical (tuples s)"
  unfolding invariant_def by (blast intro: interned_canonical)

lemma evolves_perform: "admissible act \<Longrightarrow> evolves s (perform act s)"
  by (rule evolves_step [OF evolves_refl])

lemma reachable_perform: "reachable s \<Longrightarrow> admissible act \<Longrightarrow> reachable (perform act s)"
  unfolding reachable_def by (rule evolves_step)

subsection \<open>Failures\<close>

lemma reachable_init: "reachable init"
  by (simp add: reachable_def evolves_refl)

lemma assertFeatures_fullHost: "assertFeatures fullHost = Inr ()"
  by (simp add: assertFeatures_def fullHost_def)

lemma Record_error:
  assumes "fst (Record h value s) = Inl e"
  shows "snd (Record h value s) = s"
proof (cases "assertFeatures h")
  case (Inl e')
  then show ?thesis by (simp add: Record_def createRecordFromObject_def)
next
  case caps: (Inr u)
  show ?thesis
  proof (cases "isObject value")
    case False
    with caps show ?thesis by (simp add: Record_def createRecordFromObject_def)
  next
    case obj: True
    show ?thesis
    proof (cases "Array_sort (compareEntries h) (Object_entries value)")
      case (Inl e')
      with caps obj show ?thesis by (simp add: Record_def createRecordFromObject_def)
    next
      case sorted: (Inr ordered)
      show ?thesis
      proof (cases "validateAll ordered")
        case (Inl e')
        with caps obj sorted show ?thesis by (simp add: Record_def createRecordFromObject_def)
      next
        case (Inr ps)
        then have valid: "\<forall>x\<in>set ps. classify (snd x) \<noteq> Invalid"
          by (auto dest: validateAll_Inr)
        from caps obj sorted Inr have eq: "Record h value s = RECORD_GRAPH_get ps s"
          by (simp add: Record_def createRecordFromObject_def)
        obtain r g' hp' n' where get:
          "InternGraph_get createFreshRecordFromProperties ps (RECORD_GRAPH s, records s, fresh s)
             = (r, (g', hp', n'))"
          by (metis prod_cases4)
        from RECORD_GRAPH_get_eq [OF get] eq assms have "r = Inl e" by simp
        with get have "createFreshRecordFromProperties ps = Inl e"
          by (simp add: InternGraph_get_error)
        with createFreshRecordFromProperties_total [OF valid] show ?thesis by simp
      qed
    qed
  qed
qed

lemma Tuple_error:
  assumes "fst (Tuple h vs s) = Inl e"
  shows "snd (Tuple h vs s) = s"
proof (cases "normalizeTuple 0 vs")
  case (Inl e')
  then show ?thesis by (simp add: Tuple_def)
next
  case (Inr es)
  then have eq: "Tuple h vs s = TUPLE_GRAPH_get es s" by (simp add: Tuple_def)
  obtain r g' hp' n' where get:
    "InternGraph_get createFreshTuple es (TUPLE_GRAPH s, tuples s, fresh s) = (r, (g', hp', n'))"
    by (metis prod_cases4)
  from TUPLE_GRAPH_get_eq [OF get] eq assms have "r = Inl e" by simp
  with get have "createFreshTuple es = Inl e"
    by (simp add: InternGraph_get_error)
  then show ?thesis by (simp add: createFreshTuple_def)
qed

subsection \<open>Rejection, the empty composites and frozen composites\<close>

lemma validateAll_invalid:
  assumes "\<exists>x\<in>set xs. classify (snd x) = Invalid"
  shows "\<exists>k v. (k, v) \<in> set xs \<and> classify v = Invalid \<and> validateAll xs = Inl (InvalidEntry None v)"
proof (cases "validateAll xs")
  case (Inl e)
  from validateAll_Inl [OF Inl] Inl show ?thesis by blast
next
  case (Inr ys)
  from validateAll_Inr [OF Inr] assms show ?thesis by blast
qed

lemma normalizeTuple_invalid:
  "\<exists>v\<in>set vs. classify v = Invalid \<Longrightarrow>
   \<exists>j<length vs. classify (vs ! j) = Invalid \<and>
     normalizeTuple i vs = Inl (InvalidEntry (Some (Position (i + j))) (vs ! j))"
proof (induction vs arbitrary: i)
  case Nil
  then show ?case by simp
next
  case (Cons v vs)
  show ?case
  proof (cases "classify v = Invalid")
    case True
    then have "classify ((v # vs) ! 0) = Invalid \<and>
        normalizeTuple i (v # vs) = Inl (InvalidEntry (Some (Position (i + 0))) ((v # vs) ! 0))"
      by simp
    then show ?thesis by blast
  next
    case False
    with Cons.prems have "\<exists>v\<in>set vs. classify v = Invalid" by simp
    from Cons.IH [OF this, of "Suc i"] obtain j where j: "j < length vs"
      "classify (vs ! j) = Invalid"
      "normalizeTuple (Suc i) vs = Inl (InvalidEntry (Some (Position (Suc i + j))) (vs ! j))"
      by blast
    with False have "Suc j < length (v # vs) \<and> classify ((v # vs) ! Suc j) = Invalid \<and>
        normalizeTuple i (v # vs) = Inl (InvalidEntry (Some (Position (i + Suc j))) ((v # vs) ! Suc j))"
      by simp
    then show ?thesis by blast
  qed
qed





lemma Record_returns_live:
  assumes "wellFormed value" and "Record h value s = (Inr a, s1)"
  shows "records s1 a \<noteq> None"
  using Record_cases [OF assms(1), of h]
proof (elim disjE exE conjE)
  fix e assume "\<forall>s. Record h value s = (Inl e, s)"
  with assms(2) show ?thesis by simp
next
  fix ps assume "\<forall>s. Record h value s = RECORD_GRAPH_get ps s"
  with assms(2) have "RECORD_GRAPH_get ps s = (Inr a, s1)" by simp
  from RECORD_GRAPH_get_live [OF this] show ?thesis by simp
qed

lemma Tuple_returns_live:
  assumes "Tuple h vs s = (Inr a, s1)"
  shows "tuples s1 a \<noteq> None"
  using Tuple_cases [of h vs]
proof (elim disjE exE)
  fix e assume "\<forall>s. Tuple h vs s = (Inl e, s)"
  with assms show ?thesis by simp
next
  fix es assume "\<forall>s. Tuple h vs s = TUPLE_GRAPH_get es s"
  with assms have "TUPLE_GRAPH_get es s = (Inr a, s1)" by simp
  from TUPLE_GRAPH_get_live [OF this] show ?thesis by simp
qed

lemma invariant_frozen:
  "invariant s \<Longrightarrow> records s a = Some obj \<Longrightarrow> isFrozen obj"
  "invariant s \<Longrightarrow> tuples s a = Some obj' \<Longrightarrow> isFrozen obj'"
  unfolding invariant_def interned_def by blast+

lemma invariant_bound:
  "invariant s \<Longrightarrow> records s a = Some obj \<Longrightarrow> a < fresh s"
  "invariant s \<Longrightarrow> tuples s a = Some obj' \<Longrightarrow> a < fresh s"
  unfolding invariant_def interned_def by blast+

section \<open>The object check\<close>

text \<open>
  Claim C10. For every argument that \<^verbatim>\<open>isObject\<close> rejects, \<^verbatim>\<open>Record\<close> throws the plain
  error with the message "invalid value, expected object argument", not an
  \<open>InvalidEntry\<close>, and it does so before any normalisation and before the interning graph
  is touched: the state is the one the call started in. The guard of the capabilities
  runs first, so the host is one that passes it.
\<close>

theorem Record_rejects_non_object:
  assumes "assertFeatures h = Inr ()" and "\<not> isObject value"
  shows "Record h value s = (Inl (Error ''invalid value, expected object argument''), s)"
  using assms by (simp add: Record_def createRecordFromObject_def)

theorem Record_rejects_non_object_witness:
  "assertFeatures fullHost = Inr () \<and> \<not> isObject NotAnObject \<and>
   Record fullHost NotAnObject init =
     (Inl (Error ''invalid value, expected object argument''), init)"
proof -
  have caps: "assertFeatures fullHost = Inr ()"
    by (simp add: assertFeatures_def fullHost_def)
  have no: "\<not> isObject NotAnObject"
    by simp
  show ?thesis
    using caps no Record_rejects_non_object [OF caps no, of init] by simp
qed

section \<open>The order of the normalised entries\<close>

text \<open>
  Claim C3. The normalisation of a source is claimed to produce the entries sorted by
  key, under the lexicographic comparison of the key strings alone. The comparator of
  \<^verbatim>\<open>createRecordFromObject\<close> compares the entries, not their keys: for the source
  \<^verbatim>\<open>{a: "x", a$: "y"}\<close> it compares \<^verbatim>\<open>"a,x"\<close> with \<^verbatim>\<open>"a$,y"\<close>, and the entry of key
  \<^verbatim>\<open>a$\<close> comes first although \<^verbatim>\<open>"a"\<close> is less than \<^verbatim>\<open>"a$"\<close>.
\<close>

theorem sort_compares_entries_not_keys:
  "Array_sort (compareEntries fullHost) [(''a'', JStr ''x''), (''a$'', JStr ''y'')] =
     Inr [(''a$'', JStr ''y''), (''a'', JStr ''x'')] \<and>
   stringLess ''a'' ''a$''"
  by (simp add: compareEntries_def entryToString_def)

text \<open>
  Claim C2. Order independence is claimed for every set of fields. The two sources
  \<^verbatim>\<open>{"a": "b,c", "a,b": "c"}\<close> and \<^verbatim>\<open>{"a,b": "c", "a": "b,c"}\<close> hold the same fields; both
  entries convert to \<^verbatim>\<open>"a,b,c"\<close>, the comparator answers 0, the stable sort keeps the
  order of enumeration, and the second call returns another record than the first.
\<close>

theorem Record_depends_on_enumeration_order:
  "fst (Record fullHost (AnObject [(''a'', JStr ''b,c''), (''a,b'', JStr ''c'')]) init) = Inr 0 \<and>
   fst (Record fullHost (AnObject [(''a,b'', JStr ''c''), (''a'', JStr ''b,c'')])
         (snd (Record fullHost (AnObject [(''a'', JStr ''b,c''), (''a,b'', JStr ''c'')]) init)))
     = Inr 1"
  by (simp add: record_call_defs fullHost_def init_def)

text \<open>The example of the spec is as it says: \<^verbatim>\<open>Record({a: 1, b: 2})\<close> and
  \<^verbatim>\<open>Record({b: 2, a: 1})\<close> are one record.\<close>

lemma Record_example_one_instance:
  "fst (Record fullHost (AnObject [(''a'', JNum 1), (''b'', JNum 2)]) init) = Inr 0 \<and>
   fst (Record fullHost (AnObject [(''b'', JNum 2), (''a'', JNum 1)])
         (snd (Record fullHost (AnObject [(''a'', JNum 1), (''b'', JNum 2)]) init))) = Inr 0"
  by (simp add: record_call_defs fullHost_def init_def decimal.simps)

text \<open>
  Claim C5. \<^verbatim>\<open>Record.fromEntries(pairs)\<close> is claimed to return the instance that
  \<^verbatim>\<open>Record\<close> returns for an object holding exactly the fields of the pairs. It is
  \<^verbatim>\<open>Record\<close> applied to the object built from the pairs, in their order
  (\<open>fromEntries_is_Record\<close>); for the pairs
  \<^verbatim>\<open>("a", "b,c")\<close>, \<^verbatim>\<open>("a,b", "c")\<close> and the object \<^verbatim>\<open>{"a,b": "c", "a": "b,c"}\<close>, which
  holds exactly those fields, the two entry points return different records.
\<close>

theorem fromEntries_differs_from_Record:
  "fst (Record_fromEntries fullHost [(''a'', JStr ''b,c''), (''a,b'', JStr ''c'')] init) = Inr 0 \<and>
   fst (Record fullHost (AnObject [(''a,b'', JStr ''c''), (''a'', JStr ''b,c'')])
         (snd (Record_fromEntries fullHost [(''a'', JStr ''b,c''), (''a,b'', JStr ''c'')] init)))
     = Inr 1"
  by (simp add: record_call_defs fullHost_def init_def)

section \<open>The interning invariant\<close>

text \<open>
  What the graph keeps. In every state the program can reach, two live composites of
  one kind have equal entry sequences exactly when they are the same object (nested
  composites count by identity, being values \<open>JRecord a\<close> and \<open>JTuple a\<close>); every
  action leads to a state where this holds again; a call repeated with the same
  source returns the object the first call returned, as long as that object is still
  live; and the record a call returns is live, frozen and tagged, and holds the fields
  of the source.
\<close>

lemma interning_canonical:
  assumes "reachable s"
  shows "canonical (records s) \<and> canonical (tuples s) \<and>
         (\<forall>act. admissible act \<longrightarrow>
            canonical (records (perform act s)) \<and> canonical (tuples (perform act s))) \<and>
         (\<forall>h value a s1 s2. wellFormed value \<longrightarrow> Record h value s = (Inr a, s1) \<longrightarrow>
            evolves s1 s2 \<longrightarrow> records s2 a \<noteq> None \<longrightarrow> Record h value s2 = (Inr a, s2)) \<and>
         (\<forall>h vs a s1 s2. Tuple h vs s = (Inr a, s1) \<longrightarrow>
            evolves s1 s2 \<longrightarrow> tuples s2 a \<noteq> None \<longrightarrow> Tuple h vs s2 = (Inr a, s2))"
proof -
  from assms have inv: "invariant s" by (rule reachable_invariant)
  have now: "canonical (records s) \<and> canonical (tuples s)"
    using inv by (rule invariant_canonical)
  have next_state: "canonical (records (perform act s)) \<and> canonical (tuples (perform act s))"
    if "admissible act" for act
  proof -
    from perform_step [OF inv that] have "invariant (perform act s)" by simp
    then show ?thesis by (rule invariant_canonical)
  qed
  have rec: "Record h value s2 = (Inr a, s2)"
    if "wellFormed value" "Record h value s = (Inr a, s1)" "evolves s1 s2" "records s2 a \<noteq> None"
    for h "value" a s1 s2
    using inv that by (rule Record_again)
  have tup: "Tuple h vs s2 = (Inr a, s2)"
    if "Tuple h vs s = (Inr a, s1)" "evolves s1 s2" "tuples s2 a \<noteq> None"
    for h vs a s1 s2
    using inv that by (rule Tuple_again)
  from now next_state rec tup show ?thesis by blast
qed

lemma interning_canonical_example:
  "reachable init \<and> wellFormed (AnObject [(''a'', JStr ''1''), (''b'', JStr ''2'')]) \<and>
   canonical (records (snd (Record fullHost (AnObject [(''a'', JStr ''1''), (''b'', JStr ''2'')]) init))) \<and>
   fst (Record fullHost (AnObject [(''a'', JStr ''1''), (''b'', JStr ''2'')]) init) = Inr 0 \<and>
   Record fullHost (AnObject [(''a'', JStr ''1''), (''b'', JStr ''2'')])
     (snd (Record fullHost (AnObject [(''a'', JStr ''1''), (''b'', JStr ''2'')]) init)) =
   (Inr 0, snd (Record fullHost (AnObject [(''a'', JStr ''1''), (''b'', JStr ''2'')]) init))"
proof -
  let ?v = "AnObject [(''a'', JStr ''1''), (''b'', JStr ''2'')]"
  let ?s1 = "snd (Record fullHost ?v init)"
  have wf: "wellFormed ?v" by simp
  have r0: "fst (Record fullHost ?v init) = Inr 0"
    by (simp add: record_call_defs fullHost_def init_def)
  then have call: "Record fullHost ?v init = (Inr 0, ?s1)"
    by (metis prod.collapse)
  have live: "records ?s1 0 \<noteq> None"
    by (simp add: record_call_defs fullHost_def init_def)
  have adm: "admissible (Call_Record fullHost ?v)" by simp
  from interning_canonical [OF reachable_init]
  have c: "canonical (records (perform (Call_Record fullHost ?v) init))"
    and again: "\<And>h v a s1 s2. wellFormed v \<Longrightarrow> Record h v init = (Inr a, s1) \<Longrightarrow>
        evolves s1 s2 \<Longrightarrow> records s2 a \<noteq> None \<Longrightarrow> Record h v s2 = (Inr a, s2)"
    using adm by blast+
  from again [OF wf call evolves_refl live] c wf r0 reachable_init
  show ?thesis by simp
qed

lemma Record_returns_entries:
  assumes inv: "invariant s" and wf: "wellFormed value"
    and call: "Record h value s = (Inr a, s1)"
  shows "\<exists>obj. records s1 a = Some obj \<and> set (props obj) = set (Object_entries value) \<and>
           distinct (map fst (props obj)) \<and> isFrozen obj \<and> isMarked obj"
  using Record_cases [OF wf, of h]
proof (elim disjE exE conjE)
  fix e assume "\<forall>s. Record h value s = (Inl e, s)"
  with call show ?thesis by simp
next
  fix ps assume d: "distinct (map fst ps)" and e: "set ps = set (Object_entries value)"
    and eq: "\<forall>s. Record h value s = RECORD_GRAPH_get ps s"
  from eq call have get: "RECORD_GRAPH_get ps s = (Inr a, s1)" by simp
  from RECORD_GRAPH_get_live [OF get] obtain obj where t: "terminalAt (RECORD_GRAPH s1) ps = Some a"
    and o: "records s1 a = Some obj" by blast
  from RECORD_GRAPH_get_step [OF inv d] get have "invariant s1" by simp
  then have i: "interned (RECORD_GRAPH s1) (records s1) (fresh s1)" by (simp add: invariant_def)
  from i t o have "props obj = ps" unfolding interned_def by blast
  moreover from i o have "isFrozen obj \<and> isMarked obj" unfolding interned_def by blast
  ultimately show ?thesis using o d e by blast
qed

text \<open>
  Claim C1. From the invariant the claim concludes that two constructor calls with
  equal content always return the identical object. The entry sequence is what the
  sort of \<^verbatim>\<open>createRecordFromObject\<close> leaves, and the sort compares the entries, not
  their keys: the sources \<^verbatim>\<open>{"k": "1,2", "k,1": "2"}\<close> and \<^verbatim>\<open>{"k,1": "2", "k": "1,2"}\<close>
  have equal content, both entries convert to \<^verbatim>\<open>"k,1,2"\<close>, and the two calls return
  two records, both live afterwards, with the same fields in two orders.
\<close>

theorem equal_content_two_instances:
  "fst (Record fullHost (AnObject [(''k'', JStr ''1,2''), (''k,1'', JStr ''2'')]) init) = Inr 0 \<and>
   fst (Record fullHost (AnObject [(''k,1'', JStr ''2''), (''k'', JStr ''1,2'')])
         (snd (Record fullHost (AnObject [(''k'', JStr ''1,2''), (''k,1'', JStr ''2'')]) init)))
     = Inr 1 \<and>
   map_option props
     (records
        (snd (Record fullHost (AnObject [(''k,1'', JStr ''2''), (''k'', JStr ''1,2'')])
               (snd (Record fullHost (AnObject [(''k'', JStr ''1,2''), (''k,1'', JStr ''2'')]) init))))
        0) = Some [(''k'', JStr ''1,2''), (''k,1'', JStr ''2'')] \<and>
   map_option props
     (records
        (snd (Record fullHost (AnObject [(''k,1'', JStr ''2''), (''k'', JStr ''1,2'')])
               (snd (Record fullHost (AnObject [(''k'', JStr ''1,2''), (''k,1'', JStr ''2'')]) init))))
        1) = Some [(''k,1'', JStr ''2''), (''k'', JStr ''1,2'')]"
  by (simp add: record_call_defs fullHost_def init_def)

section \<open>Failures of construction\<close>

text \<open>
  Claim C9. A failure of construction is the result of the call, and there is no
  partial success: when \<^verbatim>\<open>Record\<close>, \<^verbatim>\<open>Record.fromEntries\<close> or \<^verbatim>\<open>Tuple\<close> fails, the
  state is the one the call started in; no composite was created and the interning
  graph is unchanged.
\<close>

theorem construction_atomic:
  "(fst (Record h value s) = Inl e \<longrightarrow> snd (Record h value s) = s) \<and>
   (fst (Record_fromEntries h pairs s) = Inl e \<longrightarrow> snd (Record_fromEntries h pairs s) = s) \<and>
   (fst (Tuple h vs s) = Inl e \<longrightarrow> snd (Tuple h vs s) = s)"
  using Record_error [of h "value" s e] Record_error [of h "objectFromEntries pairs" s e]
    Tuple_error [of h vs s e]
  by (simp add: Record_fromEntries_def Record_def)

theorem construction_atomic_witness:
  "fst (Record fullHost (AnObject [(''a'', JStr ''1''), (''f'', JFunction 0)])
          (snd (Record fullHost (AnObject [(''a'', JStr ''1'')]) init)))
     = Inl (InvalidEntry None (JFunction 0)) \<and>
   snd (Record fullHost (AnObject [(''a'', JStr ''1''), (''f'', JFunction 0)])
          (snd (Record fullHost (AnObject [(''a'', JStr ''1'')]) init)))
     = snd (Record fullHost (AnObject [(''a'', JStr ''1'')]) init)"
proof -
  let ?s = "snd (Record fullHost (AnObject [(''a'', JStr ''1'')]) init)"
  let ?v = "AnObject [(''a'', JStr ''1''), (''f'', JFunction 0)]"
  have f: "fst (Record fullHost ?v ?s) = Inl (InvalidEntry None (JFunction 0))"
    by (simp add: Record_def createRecordFromObject_def assertFeatures_def
        compareEntries_def entryToString_def validateProperty_def fullHost_def)
  with construction_atomic [of fullHost ?v ?s "InvalidEntry None (JFunction 0)"]
  show ?thesis by simp
qed

section \<open>Rejection of invalid entries\<close>

text \<open>
  Claim C4, as amended. On a host that passes the capability guard, a source with a
  field whose value is not internable makes \<^verbatim>\<open>Record\<close> fail, when the comparisons of
  the sort did not throw before, with the \<open>InvalidEntry\<close> of \<^verbatim>\<open>validateProperty\<close> for
  such a value of the source; the error carries the offending value and no key, since
  \<^verbatim>\<open>validateProperty\<close> is given the value alone. \<^verbatim>\<open>Tuple\<close> fails on an invalid element
  with the element and its index. The failure is the result of the call, and the state
  is unchanged.
\<close>

theorem invalid_entry_rejected:
  assumes "assertFeatures h = Inr ()"
  shows "(Array_sort (compareEntries h) es = Inr ordered \<longrightarrow>
            (\<exists>x\<in>set es. classify (snd x) = Invalid) \<longrightarrow>
            (\<exists>k v. (k, v) \<in> set es \<and> classify v = Invalid \<and>
                   Record h (AnObject es) s = (Inl (InvalidEntry None v), s))) \<and>
         ((\<exists>v\<in>set vs. classify v = Invalid) \<longrightarrow>
            (\<exists>i<length vs. classify (vs ! i) = Invalid \<and>
                   Tuple h vs s = (Inl (InvalidEntry (Some (Position i)) (vs ! i)), s)))"
proof (intro conjI impI)
  assume sorted: "Array_sort (compareEntries h) es = Inr ordered"
    and bad: "\<exists>x\<in>set es. classify (snd x) = Invalid"
  from sorted have "set ordered = set es" by (rule Array_sort_set)
  with bad have "\<exists>x\<in>set ordered. classify (snd x) = Invalid" by simp
  from validateAll_invalid [OF this] obtain k v where kv: "(k, v) \<in> set ordered"
    "classify v = Invalid" "validateAll ordered = Inl (InvalidEntry None v)"
    by blast
  from assms sorted kv(3) have "Record h (AnObject es) s = (Inl (InvalidEntry None v), s)"
    by (simp add: Record_def createRecordFromObject_def)
  with kv \<open>set ordered = set es\<close>
  show "\<exists>k v. (k, v) \<in> set es \<and> classify v = Invalid \<and>
      Record h (AnObject es) s = (Inl (InvalidEntry None v), s)"
    by blast
next
  assume "\<exists>v\<in>set vs. classify v = Invalid"
  from normalizeTuple_invalid [OF this, of 0] obtain j where j: "j < length vs"
    "classify (vs ! j) = Invalid"
    "normalizeTuple 0 vs = Inl (InvalidEntry (Some (Position j)) (vs ! j))"
    by auto
  from assms j(3) have "Tuple h vs s = (Inl (InvalidEntry (Some (Position j)) (vs ! j)), s)"
    by (simp add: Tuple_def)
  with j show "\<exists>i<length vs. classify (vs ! i) = Invalid \<and>
      Tuple h vs s = (Inl (InvalidEntry (Some (Position i)) (vs ! i)), s)"
    by blast
qed

theorem invalid_entry_rejected_witness:
  "assertFeatures fullHost = Inr () \<and>
   Array_sort (compareEntries fullHost) [(''f'', JFunction 0), (''a'', JStr ''1'')] =
     Inr [(''a'', JStr ''1''), (''f'', JFunction 0)] \<and>
   (\<exists>k v. (k, v) \<in> set [(''f'', JFunction 0), (''a'', JStr ''1'')] \<and> classify v = Invalid \<and>
      Record fullHost (AnObject [(''f'', JFunction 0), (''a'', JStr ''1'')]) init =
        (Inl (InvalidEntry None v), init)) \<and>
   (\<exists>i<length [JStr ''x'', JObject 0]. classify ([JStr ''x'', JObject 0] ! i) = Invalid \<and>
      Tuple fullHost [JStr ''x'', JObject 0] init =
        (Inl (InvalidEntry (Some (Position i)) ([JStr ''x'', JObject 0] ! i)), init))"
proof -
  let ?es = "[(''f'', JFunction 0), (''a'', JStr ''1'')]"
  let ?vs = "[JStr ''x'', JObject 0]"
  have sorted: "Array_sort (compareEntries fullHost) ?es = Inr [(''a'', JStr ''1''), (''f'', JFunction 0)]"
    by (simp add: compareEntries_def entryToString_def fullHost_def)
  have bad: "\<exists>x\<in>set ?es. classify (snd x) = Invalid" by simp
  have bad': "\<exists>v\<in>set ?vs. classify v = Invalid" by simp
  from invalid_entry_rejected [OF assertFeatures_fullHost, of ?es _ init ?vs] sorted bad bad'
    assertFeatures_fullHost
  show ?thesis by blast
qed

text \<open>The claim as stated has the error of \<^verbatim>\<open>Record\<close> identify the offending key: the
  sources \<^verbatim>\<open>{a: f}\<close> and \<^verbatim>\<open>{b: f}\<close> fail with one and the same error.\<close>

theorem invalid_entry_without_key:
  "fst (Record fullHost (AnObject [(''a'', JFunction 0)]) init) = Inl (InvalidEntry None (JFunction 0)) \<and>
   fst (Record fullHost (AnObject [(''b'', JFunction 0)]) init) = Inl (InvalidEntry None (JFunction 0))"
  by (simp add: Record_def createRecordFromObject_def assertFeatures_def fullHost_def
      validateProperty_def)

section \<open>The capability guard\<close>

text \<open>
  Claim C8, as amended. On a host that lacks a required primitive, every call of
  \<^verbatim>\<open>Record\<close> and of \<^verbatim>\<open>Record.fromEntries\<close> fails with the capability error before
  anything else happens, and the state, the interning graph in it, is unchanged: the
  guard is the first statement of \<^verbatim>\<open>createRecordFromObject\<close>, at every call.
\<close>

theorem capability_guard_on_every_call:
  assumes "\<not> (weakReference h \<and> freezing h \<and> identityComparison h)"
  shows "\<exists>f. (\<forall>value s. Record h value s = (Inl (CapabilityMissing f), s)) \<and>
             (\<forall>pairs s. Record_fromEntries h pairs s = (Inl (CapabilityMissing f), s))"
proof -
  have "\<exists>f. assertFeatures h = Inl (CapabilityMissing f)"
    using assms by (simp add: assertFeatures_def)
  then obtain f where "assertFeatures h = Inl (CapabilityMissing f)" ..
  then have "(\<forall>value s. Record h value s = (Inl (CapabilityMissing f), s)) \<and>
      (\<forall>pairs s. Record_fromEntries h pairs s = (Inl (CapabilityMissing f), s))"
    by (simp add: Record_def Record_fromEntries_def createRecordFromObject_def)
  then show ?thesis by blast
qed

theorem capability_guard_on_every_call_witness:
  "\<not> (weakReference bareHost \<and> freezing bareHost \<and> identityComparison bareHost) \<and>
   (\<exists>f. Record bareHost (AnObject [(''a'', JStr ''1'')]) init = (Inl (CapabilityMissing f), init) \<and>
        Record_fromEntries bareHost [(''a'', JStr ''1'')] init = (Inl (CapabilityMissing f), init))"
proof -
  have lacks: "\<not> (weakReference bareHost \<and> freezing bareHost \<and> identityComparison bareHost)"
    by (simp add: bareHost_def)
  from capability_guard_on_every_call [OF lacks] lacks show ?thesis by blast
qed

text \<open>The claim as stated has the error raised once, when the module is loaded, and not
  as a cost of every call: the state at load is built without the guard, and two
  calls in a row both raise the error.\<close>

theorem capability_error_on_each_call:
  "fst (Record bareHost (AnObject []) init) = Inl (CapabilityMissing WeakReference) \<and>
   fst (Record bareHost (AnObject []) (snd (Record bareHost (AnObject []) init)))
     = Inl (CapabilityMissing WeakReference)"
  by (simp add: Record_def createRecordFromObject_def assertFeatures_def bareHost_def)

section \<open>Frozen composites\<close>

text \<open>
  Claim C6. Every composite that \<^verbatim>\<open>Record\<close> or \<^verbatim>\<open>Tuple\<close> returns is frozen when it
  is returned. In every reachable state an attempt to set, add or delete a field of
  a composite leaves the state as it was, whether the host rejects the attempt or
  lets it pass without effect; and a composite has the same entries for as long as it
  lives, whatever the program does.
\<close>

theorem composites_frozen:
  assumes "reachable s"
  shows "(\<forall>h value a s1. wellFormed value \<longrightarrow> Record h value s = (Inr a, s1) \<longrightarrow>
            (\<exists>obj. records s1 a = Some obj \<and> isFrozen obj)) \<and>
         (\<forall>h vs a s1. Tuple h vs s = (Inr a, s1) \<longrightarrow>
            (\<exists>obj. tuples s1 a = Some obj \<and> isFrozen obj)) \<and>
         (\<forall>strict a m. snd (mutateRecord strict a m s) = s) \<and>
         (\<forall>strict a m. snd (mutateTuple strict a m s) = s) \<and>
         (\<forall>a obj s' obj'. records s a = Some obj \<longrightarrow> evolves s s' \<longrightarrow>
            records s' a = Some obj' \<longrightarrow> obj' = obj) \<and>
         (\<forall>a obj s' obj'. tuples s a = Some obj \<longrightarrow> evolves s s' \<longrightarrow>
            tuples s' a = Some obj' \<longrightarrow> obj' = obj)"
proof -
  from assms have inv: "invariant s" by (rule reachable_invariant)
  have rec: "\<exists>obj. records s1 a = Some obj \<and> isFrozen obj"
    if wf: "wellFormed value" and call: "Record h value s = (Inr a, s1)" for h "value" a s1
  proof -
    from Record_step [OF inv wf, of h] call have "invariant s1" by simp
    moreover from Record_returns_live [OF wf call] obtain obj where "records s1 a = Some obj"
      by blast
    ultimately show ?thesis by (blast intro: invariant_frozen)
  qed
  have tup: "\<exists>obj. tuples s1 a = Some obj \<and> isFrozen obj"
    if call: "Tuple h vs s = (Inr a, s1)" for h vs a s1
  proof -
    from Tuple_step [OF inv, of h vs] call have "invariant s1" by simp
    moreover from Tuple_returns_live [OF call] obtain obj where "tuples s1 a = Some obj"
      by blast
    ultimately show ?thesis by (blast intro: invariant_frozen)
  qed
  have same: "obj' = obj"
    if "records s a = Some obj" "evolves s s'" "records s' a = Some obj'" for a obj s' obj'
  proof -
    from evolves_keeps [OF that(2) inv] have k: "keeps s s'" by simp
    from inv that(1) have "a < fresh s" by (rule invariant_bound)
    with k that(3) have "records s a = Some obj'" unfolding keeps_def by blast
    with that(1) show ?thesis by simp
  qed
  have same': "obj' = obj"
    if "tuples s a = Some obj" "evolves s s'" "tuples s' a = Some obj'" for a obj s' obj'
  proof -
    from evolves_keeps [OF that(2) inv] have k: "keeps s s'" by simp
    from inv that(1) have "a < fresh s" by (rule invariant_bound)
    with k that(3) have "tuples s a = Some obj'" unfolding keeps_def by blast
    with that(1) show ?thesis by simp
  qed
  show ?thesis
    apply (intro conjI allI impI)
    subgoal for h v a s1 by (rule rec)
    subgoal for h vs a s1 by (rule tup)
    subgoal for strict a m using inv by (rule mutateRecord_frozen)
    subgoal for strict a m using inv by (rule mutateTuple_frozen)
    subgoal for a obj s' obj' by (rule same)
    subgoal for a obj s' obj' by (rule same')
    done
qed

theorem composites_frozen_witness:
  "reachable init \<and> wellFormed (AnObject [(''a'', JStr ''1'')]) \<and>
   fst (Record fullHost (AnObject [(''a'', JStr ''1'')]) init) = Inr 0 \<and>
   (\<exists>obj. records (snd (Record fullHost (AnObject [(''a'', JStr ''1'')]) init)) 0 = Some obj \<and>
          isFrozen obj) \<and>
   reachable (snd (Record fullHost (AnObject [(''a'', JStr ''1'')]) init)) \<and>
   mutateRecord False 0 (Store ''a'' (JStr ''2''))
     (snd (Record fullHost (AnObject [(''a'', JStr ''1'')]) init)) =
   (Inr (), snd (Record fullHost (AnObject [(''a'', JStr ''1'')]) init)) \<and>
   snd (mutateRecord True 0 (Remove ''a'')
     (snd (Record fullHost (AnObject [(''a'', JStr ''1'')]) init))) =
   snd (Record fullHost (AnObject [(''a'', JStr ''1'')]) init)"
proof -
  let ?v = "AnObject [(''a'', JStr ''1'')]"
  let ?s1 = "snd (Record fullHost ?v init)"
  have wf: "wellFormed ?v" by simp
  have r0: "fst (Record fullHost ?v init) = Inr 0"
    by (simp add: record_call_defs fullHost_def init_def)
  then have call: "Record fullHost ?v init = (Inr 0, ?s1)"
    by (metis prod.collapse)
  have "admissible (Call_Record fullHost ?v)" by simp
  from reachable_perform [OF reachable_init this] have r1: "reachable ?s1" by simp
  note at_load = composites_frozen [OF reachable_init]
  from at_load [THEN conjunct1, rule_format, OF wf call]
  have frozen: "\<exists>obj. records ?s1 0 = Some obj \<and> isFrozen obj" .
  note after = composites_frozen [OF r1]
  from after [THEN conjunct2, THEN conjunct2, THEN conjunct1, rule_format]
  have m1: "snd (mutateRecord False 0 (Store ''a'' (JStr ''2'')) ?s1) = ?s1"
    and m2: "snd (mutateRecord True 0 (Remove ''a'') ?s1) = ?s1"
    by blast+
  have m4: "fst (mutateRecord False 0 (Store ''a'' (JStr ''2'')) ?s1) = Inr ()"
    using frozen by (auto simp: mutateRecord_def)
  from m1 m4 have e1: "mutateRecord False 0 (Store ''a'' (JStr ''2'')) ?s1 = (Inr (), ?s1)"
    by (metis prod.collapse)
  from reachable_init wf r0 frozen r1 e1 m2 show ?thesis by simp
qed

section \<open>The empty composites\<close>



end
